theory Spec2Isabelle
  imports Main "HOL-Library.Multiset"
begin

section \<open>Values shared by the scraper\<close>

text \<open>
  The scraper of \<^verbatim>\<open>src/scraper/keywordToolScraper.js\<close> talks to two outside parties:
  the file system (through \<^verbatim>\<open>fs\<close>) and a browser (through Playwright). A thrown
  JavaScript \<^verbatim>\<open>Error\<close> is represented by its message; a call that may throw has a
  result of type \<open>err + 'a\<close>, with \<open>Inl\<close> the thrown error.
\<close>

type_synonym err = string

text \<open>\<^verbatim>\<open>promise.catch(() => d)\<close>: a rejection becomes the default value.\<close>

definition catch_or :: "'a \<Rightarrow> err + 'a \<Rightarrow> 'a" where
  "catch_or d r = (case r of Inl _ \<Rightarrow> d | Inr v \<Rightarrow> v)"

text \<open>
  Values that go through \<^verbatim>\<open>JSON.stringify\<close> and come back from \<^verbatim>\<open>JSON.parse\<close>.
  An object is the list of its own properties. Numbers are integers here: the scraper
  stores and hands back the numbers of a cookie and never computes with them.
\<close>

datatype json =
    JNull
  | JBool bool
  | JNum int
  | JStr string
  | JArr "json list"
  | JObj "(string \<times> json) list"

text \<open>JavaScript truthiness of a parsed value, and of a possibly undefined one.\<close>

fun truthy :: "json \<Rightarrow> bool" where
  "truthy JNull = False"
| "truthy (JBool b) = b"
| "truthy (JNum n) = (n \<noteq> 0)"
| "truthy (JStr s) = (s \<noteq> [])"
| "truthy (JArr _) = True"
| "truthy (JObj _) = True"

definition truthy_opt :: "json option \<Rightarrow> bool" where
  "truthy_opt v = (case v of None \<Rightarrow> False | Some j \<Rightarrow> truthy j)"

text \<open>
  Property access \<^verbatim>\<open>v.name\<close> for the two names the scraper reads (\<^verbatim>\<open>cookies\<close>,
  \<^verbatim>\<open>userAgent\<close>): only an object can own them, anything else gives \<^verbatim>\<open>undefined\<close>
  (\<open>None\<close>).
\<close>

fun get_prop :: "json \<Rightarrow> string \<Rightarrow> json option" where
  "get_prop (JObj kvs) k = map_of kvs k"
| "get_prop _ k = None"

section \<open>The file system\<close>

text \<open>
  A path holds nothing, a regular file or a directory. The text of a regular file is
  represented by what \<^verbatim>\<open>JSON.parse\<close> makes of it: a value (\<open>JsonFile\<close>) or a
  \<^verbatim>\<open>SyntaxError\<close> (\<open>CorruptFile\<close>); \<^verbatim>\<open>JSON.stringify\<close> followed by
  \<^verbatim>\<open>JSON.parse\<close> is taken to give the value back. A directory stands for every entry
  on which reading, writing and unlinking throw.
\<close>

datatype node = JsonFile json | CorruptFile | Directory

text \<open>
  \<open>entries\<close> gives what each path holds; \<open>readonly\<close> marks the paths that cannot be
  written or unlinked (a read-only mount, a directory without write permission), where
  \<^verbatim>\<open>writeFileSync\<close> and \<^verbatim>\<open>unlinkSync\<close> throw and reading still works.
\<close>

record filesystem =
  entries :: "string \<Rightarrow> node option"
  readonly :: "string \<Rightarrow> bool"

definition existsSync :: "filesystem \<Rightarrow> string \<Rightarrow> bool" where
  "existsSync f p = (entries f p \<noteq> None)"

definition readFileSync :: "filesystem \<Rightarrow> string \<Rightarrow> err + node" where
  "readFileSync f p =
     (case entries f p of
        None \<Rightarrow> Inl ''ENOENT: no such file or directory''
      | Some Directory \<Rightarrow> Inl ''EISDIR: illegal operation on a directory''
      | Some n \<Rightarrow> Inr n)"

definition JSON_parse :: "node \<Rightarrow> err + json" where
  "JSON_parse n =
     (case n of
        JsonFile j \<Rightarrow> Inr j
      | _ \<Rightarrow> Inl ''SyntaxError: Unexpected token in JSON'')"

definition writeFileSync :: "filesystem \<Rightarrow> string \<Rightarrow> json \<Rightarrow> err + filesystem" where
  "writeFileSync f p j =
     (if readonly f p then Inl ''EACCES: permission denied''
      else case entries f p of
        Some Directory \<Rightarrow> Inl ''EISDIR: illegal operation on a directory''
      | _ \<Rightarrow> Inr (f\<lparr>entries := (entries f)(p \<mapsto> JsonFile j)\<rparr>))"

definition unlinkSync :: "filesystem \<Rightarrow> string \<Rightarrow> err + filesystem" where
  "unlinkSync f p =
     (if readonly f p then Inl ''EACCES: permission denied''
      else case entries f p of
        None \<Rightarrow> Inl ''ENOENT: no such file or directory''
      | Some Directory \<Rightarrow> Inl ''EISDIR: illegal operation on a directory''
      | Some _ \<Rightarrow> Inr (f\<lparr>entries := (entries f)(p := None)\<rparr>))"

section \<open>Cookie management\<close>

text \<open>
  \<^verbatim>\<open>loadCookies\<close>: the parsed file when it exists and parses; \<^verbatim>\<open>null\<close> when it
  does not exist or when reading or parsing throws. \<^verbatim>\<open>null\<close> is \<open>JNull\<close>, which is
  also what a file holding the text \<^verbatim>\<open>null\<close> parses to.
\<close>

definition loadCookies :: "filesystem \<Rightarrow> string \<Rightarrow> json" where
  "loadCookies f cookieFile =
     (if existsSync f cookieFile then
        (case readFileSync f cookieFile of
           Inl _ \<Rightarrow> JNull
         | Inr data \<Rightarrow> (case JSON_parse data of Inl _ \<Rightarrow> JNull | Inr v \<Rightarrow> v))
      else JNull)"

text \<open>
  \<^verbatim>\<open>saveCookies\<close> writes \<^verbatim>\<open>{ cookies, userAgent }\<close>; a failing write is caught and
  leaves the file system as it was.
\<close>

definition saveCookies :: "filesystem \<Rightarrow> string \<Rightarrow> json \<Rightarrow> string \<Rightarrow> filesystem" where
  "saveCookies f cookieFile cookies userAgent =
     (let data = JObj [(''cookies'', cookies), (''userAgent'', JStr userAgent)]
      in case writeFileSync f cookieFile data of Inl _ \<Rightarrow> f | Inr f' \<Rightarrow> f')"

text \<open>\<^verbatim>\<open>deleteCookies\<close> unlinks the file when it exists; every error is swallowed.\<close>

definition deleteCookies :: "filesystem \<Rightarrow> string \<Rightarrow> filesystem" where
  "deleteCookies f cookieFile =
     (if existsSync f cookieFile then
        (case unlinkSync f cookieFile of Inl _ \<Rightarrow> f | Inr f' \<Rightarrow> f')
      else f)"

section \<open>Strings\<close>

text \<open>
  A string is a list of characters with codes below 256. \<open>is_ws\<close> is the white space
  of \<^verbatim>\<open>String.prototype.trim\<close> and of the regular expression \<^verbatim>\<open>\s\<close> in that range:
  tab, line feed, vertical tab, form feed, carriage return, space and no-break space.
\<close>

definition is_ws :: "char \<Rightarrow> bool" where
  "is_ws c = (of_char c \<in> {9, 10, 11, 12, 13, 32, 160 :: nat})"

definition trim :: "string \<Rightarrow> string" where
  "trim s = rev (dropWhile is_ws (rev (dropWhile is_ws s)))"

definition is_digit :: "char \<Rightarrow> bool" where
  "is_digit c = (48 \<le> (of_char c :: nat) \<and> (of_char c :: nat) \<le> 57)"

definition is_alnum :: "char \<Rightarrow> bool" where
  "is_alnum c =
     (let n = (of_char c :: nat)
      in (48 \<le> n \<and> n \<le> 57) \<or> (65 \<le> n \<and> n \<le> 90) \<or> (97 \<le> n \<and> n \<le> 122))"

text \<open>\<^verbatim>\<open>toLowerCase\<close> on the letters of that range (A-Z and the Latin-1 capitals).\<close>

definition lower_char :: "char \<Rightarrow> char" where
  "lower_char c =
     (let n = (of_char c :: nat)
      in if (65 \<le> n \<and> n \<le> 90) \<or> (192 \<le> n \<and> n \<le> 222 \<and> n \<noteq> 215)
         then char_of (n + 32) else c)"

definition toLowerCase :: "string \<Rightarrow> string" where
  "toLowerCase s = map lower_char s"

text \<open>\<^verbatim>\<open>s.includes(t)\<close>: \<open>t\<close> occurs in \<open>s\<close> as a contiguous substring.\<close>

fun starts_with :: "string \<Rightarrow> string \<Rightarrow> bool" where
  "starts_with s [] = True"
| "starts_with [] (c # t) = False"
| "starts_with (d # s) (c # t) = (d = c \<and> starts_with s t)"

fun str_includes :: "string \<Rightarrow> string \<Rightarrow> bool" where
  "str_includes [] t = (t = [])"
| "str_includes (d # s) t = (starts_with (d # s) t \<or> str_includes s t)"

text \<open>
  \<^verbatim>\<open>parseInt(s, 10)\<close>: leading white space is skipped, a sign is read, then the longest
  run of decimal digits; no digit gives \<^verbatim>\<open>NaN\<close> (\<open>None\<close>). The value is the exact
  integer (a JavaScript number rounds it beyond \<open>2 ^ 53\<close>).
\<close>

definition digits_value :: "string \<Rightarrow> nat" where
  "digits_value ds = foldl (\<lambda>acc c. 10 * acc + (of_char c - 48)) 0 ds"

definition parseInt :: "string \<Rightarrow> int option" where
  "parseInt s =
     (let s1 = dropWhile is_ws s;
          neg = (case s1 of c # _ \<Rightarrow> c = CHR ''-'' | [] \<Rightarrow> False);
          s2 = (case s1 of c # r \<Rightarrow> (if c = CHR ''-'' \<or> c = CHR ''+'' then r else s1) | [] \<Rightarrow> s1);
          ds = takeWhile is_digit s2
      in if ds = [] then None
         else Some (if neg then - int (digits_value ds) else int (digits_value ds)))"

section \<open>Extracting keywords from the results table\<close>

text \<open>
  What the in-page function of \<^verbatim>\<open>extractKeywords\<close> reads of a table cell and of a
  table row: the cell's class list, its \<^verbatim>\<open>innerHTML\<close>, its \<^verbatim>\<open>textContent\<close> and
  whether \<^verbatim>\<open>querySelector('.blur')\<close> finds a descendant; the row's \<^verbatim>\<open>td\<close> cells
  and whether \<^verbatim>\<open>querySelector('td[colspan]')\<close> finds one.
\<close>

record cell =
  classList :: "string list"
  innerHTML :: string
  textContent :: string
  blur_descendant :: bool

record row =
  colspan_td :: bool
  cells :: "cell list"

record keyword_record =
  keyword :: string
  searchVolume :: int
  searchVolumeFormatted :: string
  trend :: string
  isDataAvailable :: bool

definition blurred :: "cell \<Rightarrow> bool" where
  "blurred c = (''blur'' \<in> set (classList c) \<or> str_includes (innerHTML c) ''blur'' \<or> blur_descendant c)"

definition cleanVolume :: "string \<Rightarrow> string" where
  "cleanVolume volumeText = filter (\<lambda>c. \<not> is_ws c) (filter (\<lambda>c. c \<noteq> CHR '','') volumeText)"

definition parse_volume :: "string \<Rightarrow> int" where
  "parse_volume volumeText =
     (if volumeText \<noteq> ''-'' then
        (let cv = cleanVolume volumeText
         in if cv \<noteq> [] \<and> parseInt cv \<noteq> None then the (parseInt cv) else 0)
      else 0)"

text \<open>The body of the \<^verbatim>\<open>rows.forEach\<close> callback: \<open>None\<close> when the row pushes nothing.\<close>

definition extract_row :: "row \<Rightarrow> keyword_record option" where
  "extract_row r =
     (if colspan_td r then None
      else if length (cells r) < 3 then None
      else
        (let kw = trim (textContent (cells r ! 1));
             volCell = cells r ! 2;
             trendCell = (if length (cells r) > 3 then Some (cells r ! 3) else None);
             isVolumeBlurred = blurred volCell;
             isTrendBlurred = (case trendCell of None \<Rightarrow> False | Some c \<Rightarrow> blurred c);
             volumeText = (if isVolumeBlurred then ''-'' else trim (textContent volCell));
             trendText = (if isTrendBlurred then ''-''
                          else case trendCell of None \<Rightarrow> ''-'' | Some c \<Rightarrow> trim (textContent c))
         in if kw \<noteq> [] then
              Some \<lparr> keyword = kw,
                     searchVolume = parse_volume volumeText,
                     searchVolumeFormatted = volumeText,
                     trend = (if trendText \<noteq> [] then trendText else ''-''),
                     isDataAvailable = \<not> isVolumeBlurred \<rparr>
            else None))"

definition extract_rows :: "row list \<Rightarrow> keyword_record list" where
  "extract_rows rs = List.map_filter extract_row rs"

text \<open>
  The wait loop of \<^verbatim>\<open>extractKeywords\<close>: up to three row counts (a failing count is
  0), stopping at the first positive one. \<open>counts n\<close> is what the count of attempt \<open>n\<close>
  answers.
\<close>

function table_found :: "(nat \<Rightarrow> err + nat) \<Rightarrow> nat \<Rightarrow> bool" where
  "table_found counts attempt =
     (if attempt < 3 then
        (if catch_or 0 (counts attempt) > 0 then True
         else table_found counts (attempt + 1))
      else False)"
  by pat_completeness auto
termination
  by (relation "measure (\<lambda>(counts, attempt). 3 - attempt)") auto

declare table_found.simps [simp del]

text \<open>
  \<^verbatim>\<open>extractKeywords\<close>: no table gives the empty list; otherwise the in-page function
  runs on the rows the page has then (\<open>rows\<close>), unless \<^verbatim>\<open>page.evaluate\<close> throws.
\<close>

definition extractKeywords :: "(nat \<Rightarrow> err + nat) \<Rightarrow> err + row list \<Rightarrow> err + keyword_record list" where
  "extractKeywords counts rows =
     (if \<not> table_found counts 0 then Inr []
      else case rows of Inl m \<Rightarrow> Inl m | Inr rs \<Rightarrow> Inr (extract_rows rs))"

section \<open>Accounts, recorded calls and the state\<close>

record account =
  email :: string
  password :: string
  cookieFile :: string

text \<open>
  The calls the scraper makes on the browser and on the session store, in the order it
  makes them. A call is recorded when it is made, whether or not it then throws.
  \<open>NewContext\<close> carries the cookies given as \<^verbatim>\<open>storageState\<close> (if any) and the user
  agent of the context options.
\<close>

datatype event =
    Launch
  | NewContext "json option" json
  | NewPage
  | AddInitScript
  | Goto string
  | Fill string string
  | Click string
  | Press string
  | Type string
  | Screenshot string
  | SaveCookies string json string
  | DeleteCookies string
  | Close

text \<open>
  The state: the file system, the calls made so far, and the arrays of accounts that
  exist (\<open>arrays r\<close> is the content of the array with reference \<open>r\<close>, \<open>next_ref\<close> the
  first reference not yet in use).
\<close>

record state =
  files :: filesystem
  trace :: "event list"
  arrays :: "nat \<Rightarrow> account list"
  next_ref :: nat

definition dq :: string where
  "dq = [CHR 0x22]"

definition log :: "event \<Rightarrow> state \<Rightarrow> state" where
  "log ev s = s\<lparr>trace := trace s @ [ev]\<rparr>"

text \<open>A browser call with outcome \<open>r\<close>: it is recorded, and it returns or throws.\<close>

definition act :: "event \<Rightarrow> err + 'a \<Rightarrow> state \<Rightarrow> (err + 'a) \<times> state" where
  "act ev r s = (r, log ev s)"

text \<open>Sequencing: a thrown error skips what follows.\<close>

definition andThen ::
  "(state \<Rightarrow> (err + 'a) \<times> state) \<Rightarrow> ('a \<Rightarrow> state \<Rightarrow> (err + 'b) \<times> state) \<Rightarrow>
   state \<Rightarrow> (err + 'b) \<times> state" where
  "andThen m k s = (case m s of (Inl e, s') \<Rightarrow> (Inl e, s') | (Inr v, s') \<Rightarrow> k v s')"

text \<open>The calls of \<^verbatim>\<open>saveCookies\<close> and \<^verbatim>\<open>deleteCookies\<close> on the state.\<close>

definition call_saveCookies :: "string \<Rightarrow> json \<Rightarrow> string \<Rightarrow> state \<Rightarrow> state" where
  "call_saveCookies file cookies userAgent s =
     log (SaveCookies file cookies userAgent)
       (s\<lparr>files := saveCookies (files s) file cookies userAgent\<rparr>)"

definition call_deleteCookies :: "string \<Rightarrow> state \<Rightarrow> state" where
  "call_deleteCookies file s =
     log (DeleteCookies file) (s\<lparr>files := deleteCookies (files s) file\<rparr>)"

section \<open>The login flow\<close>

text \<open>
  What the page answers during \<^verbatim>\<open>loginIfNeeded\<close>, call by call: the visibility of
  the login link, the URL before the login, the outcomes of the navigation to the login
  page, of the two fills, of the click and of the screenshot, whether \<^verbatim>\<open>waitForURL\<close>
  saw the page leave the login route, the URL and the body text afterwards, the text of
  the inline alert, and the cookies and user agent read at the end. \<open>userMenu_shown\<close>
  is a fact about the page, not an answer: whether it shows an element of class
  \<^verbatim>\<open>user-account\<close> or \<^verbatim>\<open>avatar\<close> or the text \<^verbatim>\<open>My Account\<close>.
\<close>

record login_env =
  loginLink_isVisible :: "err + bool"
  userMenu_shown :: bool
  url_before :: string
  goto_login :: "err + unit"
  fill_email :: "err + unit"
  fill_password :: "err + unit"
  click_submit :: "err + unit"
  screenshot :: "err + unit"
  waitForURL_away :: "err + unit"
  url_after :: string
  body_text :: "err + string"
  alert_text :: "err + string"
  cookies_after_login :: "err + json"
  userAgent_after_login :: "err + string"

text \<open>
  The probe for the user menu is
  \<^verbatim>\<open>page.locator('.user-account, .avatar, text=My Account').first().isVisible(...)\<close>.
  Playwright reads a selector as \<^verbatim>\<open>engine=body\<close> only when what precedes the first
  \<^verbatim>\<open>=\<close> is an engine name; here it is \<^verbatim>\<open>.user-account, .avatar, text\<close>, so the whole
  string is taken as CSS, in which \<^verbatim>\<open>text=My Account\<close> does not parse. The call
  rejects on every page, whatever the page shows.
\<close>

definition userMenu_isVisible :: "login_env \<Rightarrow> err + bool" where
  "userMenu_isVisible e = Inl ''Unexpected token = while parsing css selector''"

text \<open>
  The first check: no login link visible and the user menu visible; a rejected probe
  counts as not visible.
\<close>

definition already_logged_in :: "login_env \<Rightarrow> bool" where
  "already_logged_in e =
     (let isLoginVisible = catch_or False (loginLink_isVisible e)
      in \<not> isLoginVisible \<and> catch_or False (userMenu_isVisible e))"

text \<open>The \<^verbatim>\<open>try\<close> block that fills the two fields and clicks the submit button.\<close>

definition submit_credentials :: "login_env \<Rightarrow> account \<Rightarrow> state \<Rightarrow> (err + unit) \<times> state" where
  "submit_credentials e a =
     andThen (act (Fill ''input#email'' (email a)) (fill_email e)) (\<lambda>_.
     andThen (act (Fill ''input#password'' (password a)) (fill_password e)) (\<lambda>_.
     act (Click (''button[type='' @ dq @ ''submit'' @ dq @ '']'')) (click_submit e)))"

definition debugPath :: "account \<Rightarrow> string" where
  "debugPath a =
     ''../../debug-login-failed-'' @ map (\<lambda>c. if is_alnum c then c else CHR ''_'') (email a)
       @ ''.png''"

text \<open>The test for a one-time password, verification, captcha or rate limit page.\<close>

definition challenge_signal :: "string \<Rightarrow> string \<Rightarrow> bool" where
  "challenge_signal currentUrl bodyLower =
     (str_includes currentUrl ''/otp'' \<or>
      str_includes currentUrl ''/verify'' \<or>
      str_includes currentUrl ''/captcha'' \<or>
      str_includes currentUrl ''/two-factor'' \<or>
      str_includes bodyLower ''one-time password'' \<or>
      str_includes bodyLower ''otp'' \<or>
      str_includes bodyLower ''verification code'' \<or>
      str_includes bodyLower ''verify your'' \<or>
      str_includes bodyLower ''too many'' \<or>
      str_includes bodyLower ''rate limit'' \<or>
      str_includes bodyLower ''captcha'')"

text \<open>What follows the submitted form: the wait for the redirect and the verdict.\<close>

definition after_submit :: "login_env \<Rightarrow> account \<Rightarrow> state \<Rightarrow> (err + bool) \<times> state" where
  "after_submit e a s =
     (let redirected = (case waitForURL_away e of Inl _ \<Rightarrow> False | Inr _ \<Rightarrow> True);
          currentUrl = url_after e;
          bodyText = catch_or [] (body_text e);
          bodyLower = toLowerCase bodyText
      in if challenge_signal currentUrl bodyLower then
           (Inl (''OTP/verifikasi diperlukan untuk '' @ email a), s)
         else if \<not> redirected \<or> str_includes currentUrl ''/user/login'' then
           (let errorMsg = catch_or [] (alert_text e);
                errDetail = (if errorMsg \<noteq> [] then '': '' @ trim errorMsg else [])
            in (Inl (''Login gagal untuk '' @ email a @ errDetail), s))
         else
           (case cookies_after_login e of
              Inl m \<Rightarrow> (Inl m, s)
            | Inr cookies \<Rightarrow>
               (case userAgent_after_login e of
                  Inl m \<Rightarrow> (Inl m, s)
                | Inr currentUserAgent \<Rightarrow>
                    (Inr True, call_saveCookies (cookieFile a) cookies currentUserAgent s))))"

definition loginIfNeeded :: "login_env \<Rightarrow> account \<Rightarrow> state \<Rightarrow> (err + bool) \<times> state" where
  "loginIfNeeded e a s =
     (if already_logged_in e then (Inr True, s)
      else
        andThen
          (if \<not> str_includes (url_before e) ''/user/login''
           then act (Goto ''https://keywordtool.io/user/login'') (goto_login e)
           else (\<lambda>s. (Inr (), s)))
          (\<lambda>_ s1.
             case submit_credentials e a s1 of
               (Inl fillError, s2) \<Rightarrow>
                 andThen (act (Screenshot (debugPath a)) (screenshot e))
                   (\<lambda>_ s3. (Inl fillError, s3)) s2
             | (Inr _, s2) \<Rightarrow> after_submit e a s2) s)"

section \<open>One attempt with one account\<close>

text \<open>
  The two tables, with their own keys. A name that every JavaScript object inherits
  (\<^verbatim>\<open>constructor\<close>, \<^verbatim>\<open>toString\<close>, ...) is outside the platforms and tabs a caller
  passes and is not modelled: the code's lookup is truthy there, the lookup here is
  \<open>None\<close>.
\<close>

definition PLATFORM_URLS :: "string \<Rightarrow> string option" where
  "PLATFORM_URLS = map_of
     [(''google'', ''https://keywordtool.io/google''),
      (''youtube'', ''https://keywordtool.io/youtube''),
      (''instagram'', ''https://keywordtool.io/instagram''),
      (''tiktok'', ''https://keywordtool.io/tiktok''),
      (''google-trends'', ''https://keywordtool.io/google-trends'')]"

definition TAB_MAP :: "string \<Rightarrow> string option" where
  "TAB_MAP = map_of
     [(''suggestions'', ''Keyword Suggestions''),
      (''questions'', ''Questions''),
      (''prepositions'', ''Prepositions''),
      (''related'', ''Related Keywords'')]"

text \<open>
  A volume bound is an integer or \<^verbatim>\<open>Infinity\<close>. The options of a call; \<open>None\<close> is an
  option left out, which takes its default.
\<close>

datatype number = Num int | Infinity

fun num_le :: "number \<Rightarrow> number \<Rightarrow> bool" where
  "num_le (Num a) (Num b) = (a \<le> b)"
| "num_le _ Infinity = True"
| "num_le Infinity (Num b) = False"

record options =
  opt_platform :: "string option"
  opt_tab :: "string option"
  opt_minVolume :: "number option"
  opt_maxVolume :: "number option"

definition platform_of :: "options \<Rightarrow> string" where
  "platform_of opts = (case opt_platform opts of None \<Rightarrow> ''google'' | Some p \<Rightarrow> p)"

definition tab_of :: "options \<Rightarrow> string" where
  "tab_of opts = (case opt_tab opts of None \<Rightarrow> ''suggestions'' | Some t \<Rightarrow> t)"

definition minVolume_of :: "options \<Rightarrow> number" where
  "minVolume_of opts = (case opt_minVolume opts of None \<Rightarrow> Num 0 | Some n \<Rightarrow> n)"

definition maxVolume_of :: "options \<Rightarrow> number" where
  "maxVolume_of opts = (case opt_maxVolume opts of None \<Rightarrow> Infinity | Some n \<Rightarrow> n)"

datatype max_shown = Unlimited | Limit number

record scrape_result =
  result_account :: string
  totalKeywordsFound :: nat
  totalSearchVolume :: int
  averageTrend :: string
  filter_minVolume :: number
  filter_maxVolume :: max_shown
  filteredCount :: nat
  result_keywords :: "keyword_record list"

text \<open>
  What the browser answers during one attempt, call by call, outside the login flow
  (\<open>login\<close>) : the user agent drawn by \<^verbatim>\<open>config.getRandomUserAgent\<close>, the outcomes of
  the launch and of the calls that open the page, the URL after the login, the second
  navigation, the language selector, the search form, the statistics read from the body
  (total search volume and average trend, each present or not), the row counts and the
  rows of the table, the cookies and user agent read after the extraction, and the
  closing of the browser. The wait for the results route and the click on the tab have
  their errors caught and nothing depends on their outcome, so they have no field.
\<close>

record attempt_env =
  randomUserAgent :: string
  launch :: "err + unit"
  newContext :: "err + unit"
  newPage :: "err + unit"
  addInitScript :: "err + unit"
  goto_platform :: "err + unit"
  login :: login_env
  url_after_login :: string
  goto_platform_again :: "err + unit"
  lang_text :: "err + string"
  lang_click :: "err + unit"
  lang_fill :: "err + unit"
  lang_option_visible :: "err + bool"
  lang_option_click :: "err + unit"
  lang_press_enter :: "err + unit"
  lang_keyboard_type :: "err + unit"
  keywordInput_click :: "err + unit"
  keywordInput_clear :: "err + unit"
  keywordInput_fill :: "err + unit"
  searchBtn_click :: "err + unit"
  stats_evaluate :: "err + (int option \<times> string option)"
  table_counts :: "nat \<Rightarrow> err + nat"
  table_rows :: "err + row list"
  cookies_at_end :: "err + json"
  userAgent_at_end :: "err + string"
  browser_close :: "err + unit"

text \<open>
  The context options: the drawn user agent, replaced by the saved one when the loaded
  record has cookies and a user agent; the loaded cookies as \<^verbatim>\<open>storageState\<close>.
\<close>

definition contextOptions :: "attempt_env \<Rightarrow> json \<Rightarrow> json option \<times> json" where
  "contextOptions e savedData =
     (if truthy savedData \<and> truthy_opt (get_prop savedData ''cookies'') then
        (get_prop savedData ''cookies'',
         (case get_prop savedData ''userAgent'' of
            Some ua \<Rightarrow> if truthy ua then ua else JStr (randomUserAgent e)
          | None \<Rightarrow> JStr (randomUserAgent e)))
      else (None, JStr (randomUserAgent e)))"

definition platformUrl :: "options \<Rightarrow> string" where
  "platformUrl opts =
     (case PLATFORM_URLS (platform_of opts) of None \<Rightarrow> ''undefined'' | Some u \<Rightarrow> u)"

text \<open>From the new context to the first navigation to the platform page.\<close>

definition open_page :: "attempt_env \<Rightarrow> account \<Rightarrow> options \<Rightarrow> state \<Rightarrow> (err + unit) \<times> state" where
  "open_page e a opts s =
     (let savedData = loadCookies (files s) (cookieFile a);
          (storage, ua) = contextOptions e savedData
      in andThen (act (NewContext storage ua) (newContext e)) (\<lambda>_.
         andThen (act NewPage (newPage e)) (\<lambda>_.
         andThen (act AddInitScript (addInitScript e)) (\<lambda>_.
         act (Goto (platformUrl opts)) (goto_platform e)))) s)"

text \<open>The login inside its \<^verbatim>\<open>try\<close>: an error is logged and the attempt goes on as guest.\<close>

definition login_or_guest :: "attempt_env \<Rightarrow> account \<Rightarrow> state \<Rightarrow> (err + unit) \<times> state" where
  "login_or_guest e a s = (case loginIfNeeded (login e) a s of (_, s') \<Rightarrow> (Inr (), s'))"

definition navigate_again :: "attempt_env \<Rightarrow> options \<Rightarrow> state \<Rightarrow> (err + unit) \<times> state" where
  "navigate_again e opts =
     (let platform = platform_of opts;
          part = (if platform = ''google-trends'' then ''google-trends'' else ''/'' @ platform)
      in if \<not> str_includes (url_after_login e) part
         then act (Goto (platformUrl opts)) (goto_platform_again e)
         else (\<lambda>s. (Inr (), s)))"

text \<open>
  \<^verbatim>\<open>setLanguageIndonesian\<close>: every error is caught; after an error the keyboard is
  tried (typing, then Enter unless the typing throws), and an error there is swallowed
  as well.
\<close>

definition lang_select :: "attempt_env \<Rightarrow> state \<Rightarrow> (err + unit) \<times> state" where
  "lang_select e s =
     (case lang_text e of
        Inl m \<Rightarrow> (Inl m, s)
      | Inr selectedLang \<Rightarrow>
          if selectedLang \<noteq> [] \<and> starts_with (trim selectedLang) ''Indonesian'' then (Inr (), s)
          else
            andThen (act (Click ''.ts-control'') (lang_click e)) (\<lambda>_.
            andThen (act (Fill ''input.dropdown-input'' ''Indonesian'') (lang_fill e)) (\<lambda>_.
              if catch_or False (lang_option_visible e)
              then act (Click ''.ts-dropdown .option'') (lang_option_click e)
              else act (Press ''Enter'') (lang_press_enter e))) s)"

definition setLanguageIndonesian :: "attempt_env \<Rightarrow> state \<Rightarrow> (err + unit) \<times> state" where
  "setLanguageIndonesian e s =
     (case lang_select e s of
        (Inr _, s') \<Rightarrow> (Inr (), s')
      | (Inl _, s') \<Rightarrow>
          (case lang_keyboard_type e of
             Inl _ \<Rightarrow> (Inr (), log (Type ''Indonesian'') s')
           | Inr _ \<Rightarrow> (Inr (), log (Press ''Enter'') (log (Type ''Indonesian'') s'))))"

text \<open>The search form, the wait for the results route and the tab switch.\<close>

definition search :: "attempt_env \<Rightarrow> string \<Rightarrow> options \<Rightarrow> state \<Rightarrow> (err + unit) \<times> state" where
  "search e kw opts =
     andThen (act (Click (''input[id*='' @ dq @ ''keyword'' @ dq @ '']'')) (keywordInput_click e)) (\<lambda>_.
     andThen (act (Fill (''input[id*='' @ dq @ ''keyword'' @ dq @ '']'') []) (keywordInput_clear e)) (\<lambda>_.
     andThen (act (Fill (''input[id*='' @ dq @ ''keyword'' @ dq @ '']'') kw) (keywordInput_fill e)) (\<lambda>_.
     andThen (act (Click ''button.btn.btn-primary'') (searchBtn_click e)) (\<lambda>_ s.
       (case (if tab_of opts \<noteq> [] \<and> tab_of opts \<noteq> ''suggestions''
              then TAB_MAP (tab_of opts) else None) of
          Some tabLabel \<Rightarrow> (if tabLabel \<noteq> [] then (Inr (), log (Click (''a.nav-link '' @ tabLabel)) s)
                            else (Inr (), s))
        | None \<Rightarrow> (Inr (), s))))))"

text \<open>The statistics, with their defaults when absent, falsy or when reading throws.\<close>

definition stats_of :: "attempt_env \<Rightarrow> int \<times> string" where
  "stats_of e =
     (case stats_evaluate e of
        Inl _ \<Rightarrow> (0, ''-'')
      | Inr (vol, tr) \<Rightarrow>
          ((case vol of None \<Rightarrow> 0 | Some v \<Rightarrow> v),
           (case tr of None \<Rightarrow> ''-'' | Some t \<Rightarrow> if t \<noteq> [] then t else ''-'')))"

text \<open>
  After the extraction: the cookies are saved when some row has real data, and only
  then; nothing is read or saved when the list is empty or wholly blurred.
\<close>

definition save_if_real_data ::
  "attempt_env \<Rightarrow> account \<Rightarrow> keyword_record list \<Rightarrow> state \<Rightarrow> (err + unit) \<times> state" where
  "save_if_real_data e a allKeywords s =
     (if length allKeywords > 0 then
        (let hasAnyRealData = list_ex isDataAvailable allKeywords
         in if \<not> hasAnyRealData then (Inr (), s)
            else
              (case cookies_at_end e of
                 Inl m \<Rightarrow> (Inl m, s)
               | Inr cookies \<Rightarrow>
                  (case userAgent_at_end e of
                     Inl m \<Rightarrow> (Inl m, s)
                   | Inr currentUserAgent \<Rightarrow>
                       (Inr (), call_saveCookies (cookieFile a) cookies currentUserAgent s))))
      else (Inr (), s))"

definition in_volume_range :: "options \<Rightarrow> keyword_record \<Rightarrow> bool" where
  "in_volume_range opts kw =
     (num_le (minVolume_of opts) (Num (searchVolume kw)) \<and>
      num_le (Num (searchVolume kw)) (maxVolume_of opts))"

definition make_result :: "attempt_env \<Rightarrow> account \<Rightarrow> options \<Rightarrow> keyword_record list \<Rightarrow> scrape_result" where
  "make_result e a opts allKeywords =
     (let filtered = filter (in_volume_range opts) allKeywords
      in \<lparr> result_account = email a,
           totalKeywordsFound = length allKeywords,
           totalSearchVolume = fst (stats_of e),
           averageTrend = snd (stats_of e),
           filter_minVolume = minVolume_of opts,
           filter_maxVolume =
             (if maxVolume_of opts = Infinity then Unlimited else Limit (maxVolume_of opts)),
           filteredCount = length filtered,
           result_keywords = filtered \<rparr>)"

text \<open>The \<^verbatim>\<open>try\<close> block of \<^verbatim>\<open>tryWithAccount\<close> after the launch.\<close>

definition attempt_body ::
  "attempt_env \<Rightarrow> account \<Rightarrow> string \<Rightarrow> options \<Rightarrow> state \<Rightarrow> (err + scrape_result) \<times> state" where
  "attempt_body e a kw opts =
     andThen (open_page e a opts) (\<lambda>_.
     andThen (login_or_guest e a) (\<lambda>_.
     andThen (navigate_again e opts) (\<lambda>_.
     andThen (setLanguageIndonesian e) (\<lambda>_.
     andThen (search e kw opts) (\<lambda>_.
     andThen (\<lambda>s. (extractKeywords (table_counts e) (table_rows e), s)) (\<lambda>allKeywords.
     andThen (save_if_real_data e a allKeywords) (\<lambda>_ s.
       (Inr (make_result e a opts allKeywords), s))))))))"

text \<open>
  \<^verbatim>\<open>tryWithAccount\<close>: a failed launch leaves no browser to close; otherwise the
  browser is closed on every path, and an error of the closing replaces the outcome.
\<close>

definition tryWithAccount ::
  "attempt_env \<Rightarrow> account \<Rightarrow> string \<Rightarrow> options \<Rightarrow> state \<Rightarrow> (err + scrape_result) \<times> state" where
  "tryWithAccount e a kw opts s =
     (case act Launch (launch e) s of
        (Inl m, s1) \<Rightarrow> (Inl m, s1)
      | (Inr _, s1) \<Rightarrow>
          (case attempt_body e a kw opts s1 of
             (outcome, s2) \<Rightarrow>
               (case act Close (browser_close e) s2 of
                  (Inl m, s3) \<Rightarrow> (Inl m, s3)
                | (Inr _, s3) \<Rightarrow> (outcome, s3))))"

section \<open>The accounts in turn\<close>

text \<open>
  \<^verbatim>\<open>Array.prototype.sort\<close> is stable: insertion from the right with a comparator that
  returns a negative number, zero or a positive number.
\<close>

fun insert_by :: "('a \<Rightarrow> 'a \<Rightarrow> int) \<Rightarrow> 'a \<Rightarrow> 'a list \<Rightarrow> 'a list" where
  "insert_by cmp x [] = [x]"
| "insert_by cmp x (y # ys) = (if cmp x y \<le> 0 then x # y # ys else y # insert_by cmp x ys)"

definition sort_by :: "('a \<Rightarrow> 'a \<Rightarrow> int) \<Rightarrow> 'a list \<Rightarrow> 'a list" where
  "sort_by cmp xs = foldr (insert_by cmp) xs []"

text \<open>The comparator of \<^verbatim>\<open>scrapeKeywords\<close>: accounts with a cookie file first.\<close>

definition cookie_first :: "filesystem \<Rightarrow> account \<Rightarrow> account \<Rightarrow> int" where
  "cookie_first f a b =
     (let aExists = existsSync f (cookieFile a);
          bExists = existsSync f (cookieFile b)
      in if aExists \<and> \<not> bExists then - 1
         else if \<not> aExists \<and> bExists then 1
         else 0)"

text \<open>
  \<^verbatim>\<open>[...xs]\<close> makes a new array with the elements of the array at \<open>r\<close>;
  \<^verbatim>\<open>xs.sort(cmp)\<close> sorts the array at \<open>r\<close> in place.
\<close>

definition array_copy :: "nat \<Rightarrow> state \<Rightarrow> nat \<times> state" where
  "array_copy r s =
     (next_ref s, s\<lparr>arrays := (arrays s)(next_ref s := arrays s r), next_ref := Suc (next_ref s)\<rparr>)"

definition array_sort :: "nat \<Rightarrow> (account \<Rightarrow> account \<Rightarrow> int) \<Rightarrow> state \<Rightarrow> state" where
  "array_sort r cmp s = s\<lparr>arrays := (arrays s)(r := sort_by cmp (arrays s r))\<rparr>"

text \<open>
  The loop of \<^verbatim>\<open>scrapeKeywords\<close> from index \<open>i\<close> on: \<open>world i\<close> is what the browser
  answers during attempt \<open>i\<close>; the first success is returned; a failure deletes the
  account's cookies and adds its entry to \<open>errors\<close>.
\<close>

fun try_accounts ::
  "(nat \<Rightarrow> attempt_env) \<Rightarrow> string \<Rightarrow> options \<Rightarrow> nat \<Rightarrow> account list \<Rightarrow> (string \<times> string) list \<Rightarrow>
   state \<Rightarrow> ((string \<times> string) list + scrape_result) \<times> state" where
  "try_accounts world kw opts i [] errors s = (Inl errors, s)"
| "try_accounts world kw opts i (a # rest) errors s =
     (case tryWithAccount (world i) a kw opts s of
        (Inr result, s') \<Rightarrow> (Inr result, s')
      | (Inl message, s') \<Rightarrow>
          try_accounts world kw opts (Suc i) rest (errors @ [(email a, message)])
            (call_deleteCookies (cookieFile a) s'))"

fun join :: "string \<Rightarrow> string list \<Rightarrow> string" where
  "join sep [] = []"
| "join sep [x] = x"
| "join sep (x # y # ys) = x @ sep @ join sep (y # ys)"

definition error_entry :: "string \<times> string \<Rightarrow> string" where
  "error_entry e = fst e @ '': '' @ snd e"

text \<open>
  \<^verbatim>\<open>scrapeKeywords\<close>; \<open>cfg\<close> is the reference of the array
  \<^verbatim>\<open>config.keywordToolAccounts\<close>.
\<close>

definition scrapeKeywords ::
  "nat \<Rightarrow> (nat \<Rightarrow> attempt_env) \<Rightarrow> string \<Rightarrow> options \<Rightarrow> state \<Rightarrow> (err + scrape_result) \<times> state" where
  "scrapeKeywords cfg world kw opts s =
     (case PLATFORM_URLS (platform_of opts) of
        None \<Rightarrow>
          (Inl (''Invalid platform: '' @ dq @ platform_of opts @ dq @ ''. Valid: '' @
                join '', '' [''google'', ''youtube'', ''instagram'', ''tiktok'', ''google-trends'']), s)
      | Some _ \<Rightarrow>
          (case array_copy cfg s of
             (accounts, s1) \<Rightarrow>
               if length (arrays s1 accounts) = 0 then
                 (Inl ''Tidak ada akun KeywordTool.io dikonfigurasi di .env'', s1)
               else
                 (let s2 = array_sort accounts (cookie_first (files s1)) s1
                  in case try_accounts world kw opts 0 (arrays s2 accounts) [] s2 of
                       (Inr result, s3) \<Rightarrow> (Inr result, s3)
                     | (Inl errors, s3) \<Rightarrow>
                         (Inl (''Semua akun gagal login. '' @ join '' | '' (map error_entry errors)),
                          s3))))"

section \<open>Notions used in the statements\<close>

text \<open>
  The calls of \<^verbatim>\<open>saveCookies\<close> among recorded calls. A step from \<open>s\<close> to \<open>s'\<close> is
  quiet when it only adds page calls to the record: the files and the arrays are the
  same, and no launch, save or delete is added.
\<close>

fun is_save :: "event \<Rightarrow> bool" where
  "is_save (SaveCookies _ _ _) = True"
| "is_save _ = False"

fun is_page_call :: "event \<Rightarrow> bool" where
  "is_page_call Launch = False"
| "is_page_call (SaveCookies _ _ _) = False"
| "is_page_call (DeleteCookies _) = False"
| "is_page_call _ = True"

definition save_calls :: "event list \<Rightarrow> event list" where
  "save_calls evs = filter is_save evs"

definition launches :: "event list \<Rightarrow> nat" where
  "launches evs = length (filter (\<lambda>ev. ev = Launch) evs)"

text \<open>The calls recorded between \<open>s\<close> and a later state \<open>s'\<close>.\<close>

definition new_calls :: "state \<Rightarrow> state \<Rightarrow> event list" where
  "new_calls s s' = drop (length (trace s)) (trace s')"

definition quiet :: "state \<Rightarrow> state \<Rightarrow> bool" where
  "quiet s s' =
     (files s' = files s \<and> arrays s' = arrays s \<and> next_ref s' = next_ref s \<and>
      (\<exists>evs. trace s' = trace s @ evs \<and> list_all is_page_call evs))"

text \<open>
  A step from \<open>s\<close> to \<open>s'\<close> keeps the files when it adds page calls and saves only:
  the arrays and the write protection are the same, and every path that held something
  still holds something.
\<close>

definition keeps_files :: "state \<Rightarrow> state \<Rightarrow> bool" where
  "keeps_files s s' =
     (arrays s' = arrays s \<and> next_ref s' = next_ref s \<and>
      readonly (files s') = readonly (files s) \<and>
      (\<forall>q. entries (files s) q \<noteq> None \<longrightarrow> entries (files s') q \<noteq> None) \<and>
      (\<exists>evs. trace s' = trace s @ evs \<and> list_all (\<lambda>ev. is_page_call ev \<or> is_save ev) evs))"

text \<open>
  The steps of an attempt after the login end in a state \<open>s'\<close> that is a quiet step
  away from \<open>s\<close>, possibly followed by the one save made after the extraction: that
  save needs an extracted row with real data and uses the cookies and the user agent
  read at the end.
\<close>

definition ends_with_save :: "attempt_env \<Rightarrow> account \<Rightarrow> state \<Rightarrow> state \<Rightarrow> bool" where
  "ends_with_save e a s s' =
     (\<exists>s3. quiet s s3 \<and>
        (s' = s3 \<or>
         (\<exists>all c u. extractKeywords (table_counts e) (table_rows e) = Inr all \<and>
            (\<exists>k \<in> set all. isDataAvailable k) \<and>
            cookies_at_end e = Inr c \<and> userAgent_at_end e = Inr u \<and>
            s' = call_saveCookies (cookieFile a) c u s3)))"

text \<open>The steps of \<open>attempt_body\<close> that follow the login.\<close>

definition attempt_tail ::
  "attempt_env \<Rightarrow> account \<Rightarrow> string \<Rightarrow> options \<Rightarrow> state \<Rightarrow> (err + scrape_result) \<times> state" where
  "attempt_tail e a kw opts =
     andThen (navigate_again e opts) (\<lambda>_.
     andThen (setLanguageIndonesian e) (\<lambda>_.
     andThen (search e kw opts) (\<lambda>_.
     andThen (\<lambda>s. (extractKeywords (table_counts e) (table_rows e), s)) (\<lambda>allKeywords.
     andThen (save_if_real_data e a allKeywords) (\<lambda>_ s.
       (Inr (make_result e a opts allKeywords), s))))))"

section \<open>Concrete scenarios\<close>

text \<open>
  Inputs on which the definitions are run: an empty, writable file system; three
  accounts; login pages that accept, reject, challenge and that are logged in already;
  a table with one real and one blurred row. \<open>login_reused\<close> is the page of a valid
  persisted session: no login link, the user menu shown.
\<close>

definition fs_empty :: filesystem where
  "fs_empty = \<lparr> entries = (\<lambda>p. None), readonly = (\<lambda>p. False) \<rparr>"

definition state0 :: "filesystem \<Rightarrow> account list \<Rightarrow> state" where
  "state0 f accs = \<lparr> files = f, trace = [], arrays = (\<lambda>r. if r = 0 then accs else []), next_ref = 1 \<rparr>"

definition acct1 :: account where
  "acct1 = \<lparr> email = ''a1@x.io'', password = ''pw1'', cookieFile = ''.kt-cookies-1.json'' \<rparr>"

definition acct2 :: account where
  "acct2 = \<lparr> email = ''a2@x.io'', password = ''pw2'', cookieFile = ''.kt-cookies-2.json'' \<rparr>"

definition acct3 :: account where
  "acct3 = \<lparr> email = ''a3@x.io'', password = ''pw3'', cookieFile = ''.kt-cookies-3.json'' \<rparr>"

definition session1 :: json where
  "session1 = JObj [(''cookies'', JArr [JStr ''sid=1'']), (''userAgent'', JStr ''UA-saved'')]"

definition fs_session1 :: filesystem where
  "fs_session1 =
     \<lparr> entries = (\<lambda>p. if p = ''.kt-cookies-1.json'' then Some (JsonFile session1) else None),
       readonly = (\<lambda>p. False) \<rparr>"

definition fs_locked1 :: filesystem where
  "fs_locked1 =
     \<lparr> entries = (\<lambda>p. if p = ''.kt-cookies-1.json'' then Some (JsonFile session1) else None),
       readonly = (\<lambda>p. True) \<rparr>"

definition login_accepts :: login_env where
  "login_accepts =
     \<lparr> loginLink_isVisible = Inr True,
       userMenu_shown = False,
       url_before = ''https://keywordtool.io/google'',
       goto_login = Inr (),
       fill_email = Inr (),
       fill_password = Inr (),
       click_submit = Inr (),
       screenshot = Inr (),
       waitForURL_away = Inr (),
       url_after = ''https://keywordtool.io/google'',
       body_text = Inr ''Welcome back'',
       alert_text = Inl ''Timeout 3000ms exceeded'',
       cookies_after_login = Inr (JArr [JStr ''sid=2'']),
       userAgent_after_login = Inr ''UA-live'' \<rparr>"

definition login_rejects :: login_env where
  "login_rejects =
     login_accepts
       \<lparr> waitForURL_away := Inl ''Timeout 15000ms exceeded'',
         url_after := ''https://keywordtool.io/user/login'',
         body_text := Inr ''Sign in'',
         alert_text := Inr '' Wrong password '' \<rparr>"

definition login_challenges :: login_env where
  "login_challenges =
     login_accepts
       \<lparr> url_after := ''https://keywordtool.io/user/otp'',
         body_text := Inr ''Enter the code'' \<rparr>"

definition login_reused :: login_env where
  "login_reused =
     login_accepts \<lparr> loginLink_isVisible := Inr False, userMenu_shown := True \<rparr>"

definition cell_of :: "string list \<Rightarrow> string \<Rightarrow> cell" where
  "cell_of cls txt = \<lparr> classList = cls, innerHTML = txt, textContent = txt, blur_descendant = False \<rparr>"

definition row_real :: row where
  "row_real =
     \<lparr> colspan_td = False,
       cells = [cell_of [] ''1'', cell_of [] '' running shoes '', cell_of [] ''1,200'',
                cell_of [] ''+5%''] \<rparr>"

definition row_blurred :: row where
  "row_blurred =
     \<lparr> colspan_td = False,
       cells = [cell_of [] ''2'', cell_of [] ''trail shoes'', cell_of [''blur''] ''9,999'',
                cell_of [''blur''] ''+9%''] \<rparr>"

definition env_ok :: "login_env \<Rightarrow> row list \<Rightarrow> attempt_env" where
  "env_ok l rs =
     \<lparr> randomUserAgent = ''UA-random'',
       launch = Inr (),
       newContext = Inr (),
       newPage = Inr (),
       addInitScript = Inr (),
       goto_platform = Inr (),
       login = l,
       url_after_login = ''https://keywordtool.io/google'',
       goto_platform_again = Inr (),
       lang_text = Inr ''Indonesian (id)'',
       lang_click = Inr (),
       lang_fill = Inr (),
       lang_option_visible = Inr True,
       lang_option_click = Inr (),
       lang_press_enter = Inr (),
       lang_keyboard_type = Inr (),
       keywordInput_click = Inr (),
       keywordInput_clear = Inr (),
       keywordInput_fill = Inr (),
       searchBtn_click = Inr (),
       stats_evaluate = Inr (Some 1200, Some ''+5%''),
       table_counts = (\<lambda>n. Inr (length rs)),
       table_rows = Inr rs,
       cookies_at_end = Inr (JArr [JStr ''sid=3'']),
       userAgent_at_end = Inr ''UA-live'',
       browser_close = Inr () \<rparr>"

definition env_fails :: "string \<Rightarrow> attempt_env" where
  "env_fails m = (env_ok login_accepts []) \<lparr> launch := Inl m \<rparr>"

definition result_two_rows :: "string \<Rightarrow> scrape_result" where
  "result_two_rows mail =
     \<lparr> result_account = mail, totalKeywordsFound = 2, totalSearchVolume = 1200,
       averageTrend = ''+5%'', filter_minVolume = Num 100, filter_maxVolume = Limit (Num 5000),
       filteredCount = 1,
       result_keywords = [\<lparr> keyword = ''running shoes'', searchVolume = 1200,
          searchVolumeFormatted = ''1,200'', trend = ''+5%'', isDataAvailable = True \<rparr>] \<rparr>"

definition env_rejected_guest :: attempt_env where
  "env_rejected_guest = env_ok login_rejects [row_blurred]"

definition world_rejected_guest :: "nat \<Rightarrow> attempt_env" where
  "world_rejected_guest i = env_rejected_guest"

definition env_blurred_after_login :: attempt_env where
  "env_blurred_after_login = env_ok login_accepts [row_blurred]"

definition record_blurred :: keyword_record where
  "record_blurred =
     \<lparr> keyword = ''trail shoes'', searchVolume = 0, searchVolumeFormatted = ''-'', trend = ''-'',
       isDataAvailable = False \<rparr>"

definition world_third_succeeds :: "nat \<Rightarrow> attempt_env" where
  "world_third_succeeds i =
     (if i < 2 then env_fails ''boom'' else env_ok login_accepts [row_real, row_blurred])"

definition world_all_fail :: "nat \<Rightarrow> attempt_env" where
  "world_all_fail i = env_fails (if i = 0 then ''timeout'' else if i = 1 then ''crash'' else ''blocked'')"

definition opts0 :: options where
  "opts0 = \<lparr> opt_platform = None, opt_tab = None, opt_minVolume = None, opt_maxVolume = None \<rparr>"

definition opts_range :: options where
  "opts_range =
     \<lparr> opt_platform = Some ''google'', opt_tab = Some ''suggestions'',
       opt_minVolume = Some (Num 100), opt_maxVolume = Some (Num 5000) \<rparr>"

section \<open>Properties of the session store\<close>






lemma unlinkSync_Inr:
  "unlinkSync f p = Inr f' \<Longrightarrow> f' = f\<lparr>entries := (entries f)(p := None)\<rparr>"
  by (auto simp: unlinkSync_def split: if_splits option.splits node.splits)

lemma saveCookies_failed_write:
  "writeFileSync f p (JObj [(''cookies'', c), (''userAgent'', JStr ua)]) = Inl e \<Longrightarrow>
   saveCookies f p c ua = f"
  by (simp add: saveCookies_def)

lemma deleteCookies_failed_unlink: "unlinkSync f p = Inl e \<Longrightarrow> deleteCookies f p = f"
  by (simp add: deleteCookies_def)

lemma saveCookies_entries_other: "q \<noteq> p \<Longrightarrow> entries (saveCookies f p c ua) q = entries f q"
  by (auto simp: saveCookies_def writeFileSync_def Let_def split: option.splits node.splits)

lemma saveCookies_readonly: "readonly (saveCookies f p c ua) = readonly f"
  by (auto simp: saveCookies_def writeFileSync_def Let_def split: option.splits node.splits)

lemma deleteCookies_entries_other: "q \<noteq> p \<Longrightarrow> entries (deleteCookies f p) q = entries f q"
  by (auto simp: deleteCookies_def unlinkSync_def split: option.splits node.splits)

lemma deleteCookies_readonly: "readonly (deleteCookies f p) = readonly f"
  by (auto simp: deleteCookies_def unlinkSync_def split: option.splits node.splits)




section \<open>Properties of the extraction\<close>

lemma extract_row_blurred:
  assumes "extract_row r = Some k"
  shows "isDataAvailable k = (\<not> blurred (cells r ! 2))"
    and "blurred (cells r ! 2) \<Longrightarrow> searchVolume k = 0 \<and> searchVolumeFormatted k = ''-''"
  using assms
  by (auto simp: extract_row_def Let_def parse_volume_def split: if_splits)

lemma extract_rows_mem:
  "k \<in> set (extract_rows rs) \<longleftrightarrow> (\<exists>r \<in> set rs. extract_row r = Some k)"
  unfolding extract_rows_def
  by (induction rs) (auto simp: List.map_filter_simps split: option.splits)

text \<open>
  C4. Every record the extraction produces with \<^verbatim>\<open>isDataAvailable == false\<close> has
  \<^verbatim>\<open>searchVolume == 0\<close> and the placeholder \<^verbatim>\<open>'-'\<close> as display string. A row whose
  volume cell carries a blur marker (class, inline marker text or nested element) gives
  such a record whatever text the cell holds; this holds for the in-page function on any
  rows and for every list \<^verbatim>\<open>extractKeywords\<close> returns.
\<close>

theorem blurred_volume_is_zero:
  "(\<forall>k \<in> set (extract_rows rs).
      \<not> isDataAvailable k \<longrightarrow> searchVolume k = 0 \<and> searchVolumeFormatted k = ''-'')
   \<and> (\<forall>r k. extract_row r = Some k \<and> blurred (cells r ! 2) \<longrightarrow>
      \<not> isDataAvailable k \<and> searchVolume k = 0 \<and> searchVolumeFormatted k = ''-'')
   \<and> (\<forall>ks. extractKeywords counts rows = Inr ks \<longrightarrow>
      (\<forall>k \<in> set ks. \<not> isDataAvailable k \<longrightarrow> searchVolume k = 0 \<and> searchVolumeFormatted k = ''-''))"
proof -
  have rows_ok: "\<not> isDataAvailable k \<longrightarrow> searchVolume k = 0 \<and> searchVolumeFormatted k = ''-''"
    if "k \<in> set (extract_rows xs)" for k xs
  proof -
    from that obtain r where "extract_row r = Some k"
      by (auto simp: extract_rows_mem)
    then show ?thesis
      using extract_row_blurred by blast
  qed
  have "\<forall>k \<in> set ks. \<not> isDataAvailable k \<longrightarrow> searchVolume k = 0 \<and> searchVolumeFormatted k = ''-''"
    if "extractKeywords counts rows = Inr ks" for ks
  proof (cases "table_found counts 0")
    case False
    with that show ?thesis by (simp add: extractKeywords_def)
  next
    case True
    with that obtain xs where "ks = extract_rows xs"
      by (auto simp: extractKeywords_def split: sum.splits)
    then show ?thesis using rows_ok by blast
  qed
  moreover have "\<not> isDataAvailable k \<and> searchVolume k = 0 \<and> searchVolumeFormatted k = ''-''"
    if "extract_row r = Some k \<and> blurred (cells r ! 2)" for r k
    using that extract_row_blurred by blast
  ultimately show ?thesis using rows_ok by blast
qed

theorem blurred_volume_is_zero_witness:
  "extract_row row_blurred \<noteq> None \<and> blurred (cells row_blurred ! 2) \<and>
   textContent (cells row_blurred ! 2) = ''9,999'' \<and>
   \<not> isDataAvailable (the (extract_row row_blurred)) \<and>
   searchVolume (the (extract_row row_blurred)) = 0 \<and>
   searchVolumeFormatted (the (extract_row row_blurred)) = ''-''"
proof -
  have b: "blurred (cells row_blurred ! 2)" and t: "textContent (cells row_blurred ! 2) = ''9,999''"
    by (simp_all add: row_blurred_def cell_of_def blurred_def)
  obtain k where k: "extract_row row_blurred = Some k"
    by (simp add: extract_row_def row_blurred_def cell_of_def Let_def trim_def is_ws_def)
  from blurred_volume_is_zero [of "[row_blurred]" "\<lambda>n. Inr 1" "Inr [row_blurred]"] k b
  have "\<not> isDataAvailable k \<and> searchVolume k = 0 \<and> searchVolumeFormatted k = ''-''"
    by blast
  with k b t show ?thesis by simp
qed

section \<open>Steps that only add page calls\<close>

lemma log_fields [simp]:
  "files (log ev s) = files s" "arrays (log ev s) = arrays s" "next_ref (log ev s) = next_ref s"
  "trace (log ev s) = trace s @ [ev]"
  by (simp_all add: log_def)

lemma call_saveCookies_fields [simp]:
  "files (call_saveCookies p c u s) = saveCookies (files s) p c u"
  "arrays (call_saveCookies p c u s) = arrays s"
  "next_ref (call_saveCookies p c u s) = next_ref s"
  "trace (call_saveCookies p c u s) = trace s @ [SaveCookies p c u]"
  by (simp_all add: call_saveCookies_def)

lemma call_deleteCookies_fields [simp]:
  "files (call_deleteCookies p s) = deleteCookies (files s) p"
  "arrays (call_deleteCookies p s) = arrays s"
  "next_ref (call_deleteCookies p s) = next_ref s"
  "trace (call_deleteCookies p s) = trace s @ [DeleteCookies p]"
  by (simp_all add: call_deleteCookies_def)

lemma quiet_refl [simp]: "quiet s s"
  by (simp add: quiet_def)

lemma quiet_trans: "quiet s t \<Longrightarrow> quiet t u \<Longrightarrow> quiet s u"
  by (auto simp: quiet_def)

lemma quiet_log: "is_page_call ev \<Longrightarrow> quiet s (log ev s)"
  by (simp add: quiet_def)

lemma quiet_log_trans: "quiet s t \<Longrightarrow> is_page_call ev \<Longrightarrow> quiet s (log ev t)"
  using quiet_trans quiet_log by blast

lemma quiet_act: "is_page_call ev \<Longrightarrow> quiet s (snd (act ev r s))"
  by (simp add: act_def quiet_log)

lemma quiet_andThen:
  assumes "\<And>s. quiet s (snd (m s))" and "\<And>v s. quiet s (snd (k v s))"
  shows "quiet s (snd (andThen m k s))"
proof (cases "m s")
  case (Pair r s1)
  have q1: "quiet s s1" using assms(1) [of s] Pair by simp
  show ?thesis
  proof (cases r)
    case (Inl e)
    with Pair q1 show ?thesis by (simp add: andThen_def)
  next
    case (Inr v)
    with Pair have "andThen m k s = k v s1" by (simp add: andThen_def)
    with q1 assms(2) [of s1 v] show ?thesis by (auto intro: quiet_trans)
  qed
qed

lemma quiet_pure: "quiet s (snd ((\<lambda>s. (r, s)) s))"
  by simp

lemma open_page_quiet: "quiet s (snd (open_page e a opts s))"
  unfolding open_page_def Let_def
  by (auto split: prod.splits intro!: quiet_andThen quiet_act)

lemma navigate_again_quiet: "quiet s (snd (navigate_again e opts s))"
  unfolding navigate_again_def Let_def
  by (auto intro!: quiet_act)

lemma lang_select_quiet: "quiet s (snd (lang_select e s))"
  unfolding lang_select_def
  by (auto split: sum.splits intro!: quiet_andThen quiet_act)

lemma setLanguageIndonesian_quiet: "quiet s (snd (setLanguageIndonesian e s))"
  using lang_select_quiet [of s e]
  unfolding setLanguageIndonesian_def
  by (auto split: sum.splits prod.splits intro!: quiet_log_trans)

lemma search_quiet: "quiet s (snd (search e kw opts s))"
  unfolding search_def
  by (auto split: option.splits intro!: quiet_andThen quiet_act quiet_log)

lemma submit_credentials_quiet: "quiet s (snd (submit_credentials e a s))"
  unfolding submit_credentials_def
  by (auto intro!: quiet_andThen quiet_act)


lemma loginIfNeeded_reused: "already_logged_in e \<Longrightarrow> loginIfNeeded e a s = (Inr True, s)"
  by (simp add: loginIfNeeded_def)

lemma after_submit_cases:
  assumes "after_submit e a s = (r, s')"
  shows "(s' = s \<and> (\<exists>m. r = Inl m)) \<or>
         (r = Inr True \<and> (\<exists>c u. cookies_after_login e = Inr c \<and> userAgent_after_login e = Inr u \<and>
            s' = call_saveCookies (cookieFile a) c u s))"
  using assms
  by (auto simp: after_submit_def Let_def split: if_splits sum.splits)

lemma loginIfNeeded_cases:
  assumes "loginIfNeeded e a s = (r, s')"
  shows "(quiet s s' \<and> (already_logged_in e \<or> (\<exists>m. r = Inl m))) \<or>
         (\<not> already_logged_in e \<and> r = Inr True \<and>
          (\<exists>c u s1. cookies_after_login e = Inr c \<and> userAgent_after_login e = Inr u \<and>
             quiet s s1 \<and> s' = call_saveCookies (cookieFile a) c u s1))"
proof (cases "already_logged_in e")
  case True
  with assms show ?thesis by (simp add: loginIfNeeded_def)
next
  case False
  define nav where "nav = (if \<not> str_includes (url_before e) ''/user/login''
           then act (Goto ''https://keywordtool.io/user/login'') (goto_login e)
           else (\<lambda>s. (Inr (), s)))"
  have qnav: "quiet s (snd (nav s))"
    by (simp add: nav_def quiet_act)
  obtain nr s1 where nav: "nav s = (nr, s1)" by (cases "nav s")
  with qnav have q1: "quiet s s1" by simp
  show ?thesis
  proof (cases nr)
    case (Inl m)
    with assms False nav q1 show ?thesis
      by (auto simp: loginIfNeeded_def andThen_def nav_def [symmetric])
  next
    case (Inr u)
    obtain sr s2 where sub: "submit_credentials e a s1 = (sr, s2)"
      by (cases "submit_credentials e a s1")
    have q2: "quiet s s2"
      using submit_credentials_quiet [of s1 e a] sub q1 by (auto intro: quiet_trans)
    show ?thesis
    proof (cases sr)
      case (Inl fillError)
      define fin :: "(err + bool) \<times> state"
        where "fin = andThen (act (Screenshot (debugPath a)) (screenshot e))
                   (\<lambda>_ s3. (Inl fillError, s3)) s2"
      have qf: "quiet s2 (snd fin)"
        unfolding fin_def by (intro quiet_andThen quiet_act) simp_all
      have mf: "\<exists>m. fst fin = Inl m"
        by (simp add: fin_def andThen_def act_def split: sum.splits)
      have "loginIfNeeded e a s = fin"
        using False nav Inr sub Inl
        by (simp add: fin_def loginIfNeeded_def andThen_def nav_def [symmetric])
      with assms have "fin = (r, s')" by simp
      with qf mf have "quiet s2 s'" and "\<exists>m. r = Inl m" by simp_all
      with q2 show ?thesis by (blast intro: quiet_trans)
    next
      case (Inr v)
      have "loginIfNeeded e a s = after_submit e a s2"
        using False nav \<open>nr = Inr u\<close> sub Inr
        by (simp add: loginIfNeeded_def andThen_def nav_def [symmetric])
      with assms have "after_submit e a s2 = (r, s')" by simp
      from after_submit_cases [OF this] q2 False show ?thesis by auto
    qed
  qed
qed

lemma after_submit_outcome: "fst (after_submit e a s) = fst (after_submit e a t)"
  by (simp add: after_submit_def Let_def split: sum.splits)

lemma submit_credentials_outcome: "fst (submit_credentials e a s) = fst (submit_credentials e a t)"
  by (simp add: submit_credentials_def andThen_def act_def split: sum.splits)

lemma andThen_outcome:
  assumes "fst (m s) = fst (m t)" and "\<And>v s1 t1. fst (k v s1) = fst (k v t1)"
  shows "fst (andThen m k s) = fst (andThen m k t)"
proof -
  obtain r s1 where ms: "m s = (r, s1)" by (cases "m s")
  obtain r' t1 where mt: "m t = (r', t1)" by (cases "m t")
  from assms(1) ms mt have "r' = r" by simp
  with ms mt assms(2) show ?thesis
    by (cases r) (simp_all add: andThen_def)
qed

lemma act_outcome: "fst (act ev r s) = fst (act ev r t)"
  by (simp add: act_def)

lemma login_tail_outcome:
  "fst (case submit_credentials e a s of
          (Inl fillError, s2) \<Rightarrow>
             andThen (act (Screenshot (debugPath a)) (screenshot e)) (\<lambda>_ s3. (Inl fillError, s3)) s2
        | (Inr _, s2) \<Rightarrow> after_submit e a s2) =
   fst (case submit_credentials e a t of
          (Inl fillError, s2) \<Rightarrow>
             andThen (act (Screenshot (debugPath a)) (screenshot e)) (\<lambda>_ s3. (Inl fillError, s3)) s2
        | (Inr _, s2) \<Rightarrow> after_submit e a s2)"
proof -
  obtain r s1 where ms: "submit_credentials e a s = (r, s1)" by (cases "submit_credentials e a s")
  obtain r' t1 where mt: "submit_credentials e a t = (r', t1)" by (cases "submit_credentials e a t")
  from submit_credentials_outcome [of e a s t] ms mt have eq: "r' = r" by simp
  show ?thesis
  proof (cases r)
    case (Inl fillError)
    with ms mt eq show ?thesis
      by (simp add: andThen_def act_def split: sum.splits)
  next
    case (Inr v)
    with ms mt eq after_submit_outcome [of e a s1 t1] show ?thesis by simp
  qed
qed

lemma loginIfNeeded_outcome: "fst (loginIfNeeded e a s) = fst (loginIfNeeded e a t)"
proof (cases "already_logged_in e")
  case True
  then show ?thesis by (simp add: loginIfNeeded_def)
next
  case False
  then show ?thesis
    unfolding loginIfNeeded_def
    by (simp only: if_False) (rule andThen_outcome, simp add: act_def, rule login_tail_outcome)
qed

section \<open>Properties of the login flow\<close>

lemma userMenu_probe_rejects: "catch_or False (userMenu_isVisible e) = False"
  by (simp add: userMenu_isVisible_def catch_or_def)

lemma never_already_logged_in: "\<not> already_logged_in e"
  by (simp add: already_logged_in_def userMenu_probe_rejects)

lemma login_page_reached_fills_email:
  assumes "str_includes (url_before e) ''/user/login'' \<or> goto_login e = Inr ()"
  shows "Fill ''input#email'' (email a) \<in> set (new_calls s (snd (loginIfNeeded e a s)))"
  using assms never_already_logged_in [of e]
  apply (simp add: loginIfNeeded_def andThen_def act_def submit_credentials_def new_calls_def
      split: sum.splits prod.splits)
  apply (auto simp: after_submit_def Let_def split: if_splits sum.splits)
  done

text \<open>
  C5. The claim wants \<^verbatim>\<open>loginIfNeeded\<close> to return without filling a credential field
  or submitting the form when the page shows no login link and the user menu is
  visible. The code has that early return, but its probe for the user menu always
  rejects, so the early return is never taken: on the page of a valid session (no login
  link, user menu shown) \<^verbatim>\<open>loginIfNeeded\<close> goes to the login page, fills the email and
  the password, and clicks the submit button.
\<close>

theorem valid_session_submits_credentials:
  "catch_or False (loginLink_isVisible login_reused) = False \<and>
   userMenu_shown login_reused \<and>
   new_calls (state0 fs_session1 [acct1])
     (snd (loginIfNeeded login_reused acct1 (state0 fs_session1 [acct1]))) =
     [Goto ''https://keywordtool.io/user/login'',
      Fill ''input#email'' ''a1@x.io'',
      Fill ''input#password'' ''pw1'',
      Click (''button[type='' @ dq @ ''submit'' @ dq @ '']''),
      SaveCookies ''.kt-cookies-1.json'' (JArr [JStr ''sid=2'']) ''UA-live'']"
  by (simp add: login_reused_def login_accepts_def acct1_def state0_def new_calls_def
      loginIfNeeded_def already_logged_in_def userMenu_isVisible_def submit_credentials_def
      after_submit_def challenge_signal_def andThen_def act_def log_def call_saveCookies_def
      catch_or_def toLowerCase_def lower_char_def Let_def)





section \<open>Properties of one attempt\<close>

lemma attempt_body_result:
  assumes "attempt_body e a kw opts s = (Inr r, s')"
  shows "\<exists>all. extractKeywords (table_counts e) (table_rows e) = Inr all \<and>
               r = make_result e a opts all"
  using assms
  by (auto simp: attempt_body_def andThen_def split: sum.splits prod.splits)

lemma tryWithAccount_result:
  assumes "tryWithAccount e a kw opts s = (Inr r, s')"
  shows "\<exists>all. extractKeywords (table_counts e) (table_rows e) = Inr all \<and>
               r = make_result e a opts all"
proof -
  from assms obtain s1 s2 where "attempt_body e a kw opts s1 = (Inr r, s2)"
    by (auto simp: tryWithAccount_def act_def split: sum.splits prod.splits)
  then show ?thesis by (rule attempt_body_result)
qed

text \<open>
  C3. For every result \<^verbatim>\<open>tryWithAccount\<close> returns, with the bounds \<open>minVolume_of opts\<close>
  and \<open>maxVolume_of opts\<close>: \<^verbatim>\<open>filteredCount\<close> is the number of records in
  \<^verbatim>\<open>keywords\<close>, which is also the number of them within the bounds; every record in
  \<^verbatim>\<open>keywords\<close> is within the bounds; and \<^verbatim>\<open>keywords\<close> is the list of extracted
  records filtered by the bounds, so every extracted record within the bounds is in it.
\<close>

theorem volume_filter:
  assumes "tryWithAccount e a kw opts s = (Inr r, s')"
  shows "filteredCount r = length (result_keywords r) \<and>
         filteredCount r = length (filter (\<lambda>k. num_le (minVolume_of opts) (Num (searchVolume k)) \<and>
                                              num_le (Num (searchVolume k)) (maxVolume_of opts))
                                     (result_keywords r)) \<and>
         (\<forall>k \<in> set (result_keywords r).
            num_le (minVolume_of opts) (Num (searchVolume k)) \<and>
            num_le (Num (searchVolume k)) (maxVolume_of opts)) \<and>
         (\<exists>all. extractKeywords (table_counts e) (table_rows e) = Inr all \<and>
            totalKeywordsFound r = length all \<and>
            (\<forall>k \<in> set all.
               num_le (minVolume_of opts) (Num (searchVolume k)) \<and>
               num_le (Num (searchVolume k)) (maxVolume_of opts) \<longrightarrow> k \<in> set (result_keywords r)) \<and>
            result_keywords r =
              filter (\<lambda>k. num_le (minVolume_of opts) (Num (searchVolume k)) \<and>
                          num_le (Num (searchVolume k)) (maxVolume_of opts)) all)"
proof -
  from tryWithAccount_result [OF assms] obtain all
    where x: "extractKeywords (table_counts e) (table_rows e) = Inr all"
      and r: "r = make_result e a opts all" by blast
  have f: "in_volume_range opts = (\<lambda>k. num_le (minVolume_of opts) (Num (searchVolume k)) \<and>
                          num_le (Num (searchVolume k)) (maxVolume_of opts))"
    by (rule ext) (simp add: in_volume_range_def)
  show ?thesis
    using x unfolding r make_result_def Let_def f by simp
qed

lemma keeps_files_refl [simp]: "keeps_files s s"
  by (simp add: keeps_files_def)

lemma keeps_files_trans: "keeps_files s t \<Longrightarrow> keeps_files t u \<Longrightarrow> keeps_files s u"
  by (auto simp: keeps_files_def)

lemma quiet_keeps_files: "quiet s t \<Longrightarrow> keeps_files s t"
  by (auto simp: quiet_def keeps_files_def list_all_iff)

lemma saveCookies_entries_kept: "entries f q \<noteq> None \<Longrightarrow> entries (saveCookies f p c u) q \<noteq> None"
  by (auto simp: saveCookies_def writeFileSync_def Let_def split: option.splits node.splits)

lemma call_saveCookies_keeps_files: "keeps_files s (call_saveCookies p c u s)"
  by (simp add: keeps_files_def saveCookies_readonly saveCookies_entries_kept)

lemma log_keeps_files: "is_page_call ev \<Longrightarrow> keeps_files s (log ev s)"
  by (simp add: keeps_files_def)

lemma loginIfNeeded_keeps_files: "keeps_files s (snd (loginIfNeeded e a s))"
proof -
  obtain r s' where l: "loginIfNeeded e a s = (r, s')" by (cases "loginIfNeeded e a s")
  from loginIfNeeded_cases [OF l] have "keeps_files s s'"
    by (auto intro: quiet_keeps_files keeps_files_trans call_saveCookies_keeps_files)
  with l show ?thesis by simp
qed

lemma keeps_files_andThen:
  assumes "\<And>s. keeps_files s (snd (m s))" and "\<And>v s. keeps_files s (snd (k v s))"
  shows "keeps_files s (snd (andThen m k s))"
proof (cases "m s")
  case (Pair r s1)
  have q1: "keeps_files s s1" using assms(1) [of s] Pair by simp
  show ?thesis
  proof (cases r)
    case (Inl e)
    with Pair q1 show ?thesis by (simp add: andThen_def)
  next
    case (Inr v)
    with Pair have "andThen m k s = k v s1" by (simp add: andThen_def)
    with q1 assms(2) [of s1 v] show ?thesis by (auto intro: keeps_files_trans)
  qed
qed

lemma save_if_real_data_keeps_files: "keeps_files s (snd (save_if_real_data e a all s))"
  by (simp add: save_if_real_data_def Let_def call_saveCookies_keeps_files split: sum.splits)

lemma login_or_guest_keeps_files: "keeps_files s (snd (login_or_guest e a s))"
  using loginIfNeeded_keeps_files [of s "login e" a]
  by (auto simp: login_or_guest_def split: prod.splits)

lemma attempt_body_keeps_files: "keeps_files s (snd (attempt_body e a kw opts s))"
  unfolding attempt_body_def
  by (intro keeps_files_andThen
        quiet_keeps_files [OF open_page_quiet] quiet_keeps_files [OF navigate_again_quiet]
        quiet_keeps_files [OF setLanguageIndonesian_quiet] quiet_keeps_files [OF search_quiet]
        save_if_real_data_keeps_files login_or_guest_keeps_files)
     simp_all

lemma tryWithAccount_shape:
  "\<exists>s1. keeps_files (log Launch s) s1 \<and>
        (snd (tryWithAccount e a kw opts s) = log Launch s \<or>
         snd (tryWithAccount e a kw opts s) = log Close s1)"
proof (cases "launch e")
  case (Inl m)
  then have "snd (tryWithAccount e a kw opts s) = log Launch s"
    by (simp add: tryWithAccount_def act_def)
  then show ?thesis using keeps_files_refl by blast
next
  case (Inr u)
  obtain out s2 where b: "attempt_body e a kw opts (log Launch s) = (out, s2)"
    by (cases "attempt_body e a kw opts (log Launch s)")
  with attempt_body_keeps_files [of "log Launch s" e a kw opts]
  have "keeps_files (log Launch s) s2" by simp
  moreover have "snd (tryWithAccount e a kw opts s) = log Close s2"
    using Inr b by (simp add: tryWithAccount_def act_def split: sum.splits)
  ultimately show ?thesis by blast
qed

lemma tryWithAccount_frame:
  "arrays (snd (tryWithAccount e a kw opts s)) = arrays s"
  "next_ref (snd (tryWithAccount e a kw opts s)) = next_ref s"
  "readonly (files (snd (tryWithAccount e a kw opts s))) = readonly (files s)"
  "entries (files s) q \<noteq> None \<Longrightarrow> entries (files (snd (tryWithAccount e a kw opts s))) q \<noteq> None"
  using tryWithAccount_shape [of s e a kw opts]
  by (auto simp: keeps_files_def)

lemma tryWithAccount_trace:
  "\<exists>evs. trace (snd (tryWithAccount e a kw opts s)) = trace s @ Launch # evs \<and>
         Launch \<notin> set evs \<and> (\<forall>p. DeleteCookies p \<notin> set evs)"
proof -
  have np: "ev \<noteq> Launch \<and> (\<forall>p. ev \<noteq> DeleteCookies p)" if "is_page_call ev \<or> is_save ev" for ev
    using that by (cases ev) auto
  from tryWithAccount_shape [of s e a kw opts] obtain s1
    where k: "keeps_files (log Launch s) s1"
      and d: "snd (tryWithAccount e a kw opts s) = log Launch s \<or>
              snd (tryWithAccount e a kw opts s) = log Close s1" by blast
  from k obtain evs where t: "trace s1 = trace s @ Launch # evs"
      and a: "list_all (\<lambda>ev. is_page_call ev \<or> is_save ev) evs"
    by (auto simp: keeps_files_def)
  from a np have n: "Launch \<notin> set evs \<and> (\<forall>p. DeleteCookies p \<notin> set evs)"
    by (auto simp: list_all_iff)
  from d show ?thesis
  proof
    assume "snd (tryWithAccount e a kw opts s) = log Launch s"
    then show ?thesis by simp
  next
    assume "snd (tryWithAccount e a kw opts s) = log Close s1"
    with t n show ?thesis by simp
  qed
qed

section \<open>Properties of the orchestrator\<close>

lemmas scen = fs_empty_def state0_def acct1_def acct2_def acct3_def session1_def fs_session1_def
  fs_locked1_def login_accepts_def login_rejects_def login_challenges_def login_reused_def
  cell_of_def row_real_def row_blurred_def env_ok_def env_fails_def opts0_def opts_range_def

lemma launches_simps [simp]:
  "launches [] = 0" "launches (xs @ ys) = launches xs + launches ys"
  "launches (ev # xs) = (if ev = Launch then 1 else 0) + launches xs"
  by (simp_all add: launches_def)

lemma launches_none: "Launch \<notin> set evs \<Longrightarrow> launches evs = 0"
  by (induction evs) auto

lemma tryWithAccount_launches:
  "launches (trace (snd (tryWithAccount e a kw opts s))) = Suc (launches (trace s))"
  using tryWithAccount_trace [of e a kw opts s] by (auto simp: launches_none)

lemma quiet_outcome_pure: "fst ((\<lambda>s. (r, s)) s) = fst ((\<lambda>s. (r, s)) t)"
  by simp

lemma open_page_outcome: "fst (open_page e a opts s) = fst (open_page e a opts t)"
  by (simp add: open_page_def Let_def andThen_def act_def split: prod.splits sum.splits)

lemma navigate_again_outcome: "fst (navigate_again e opts s) = fst (navigate_again e opts t)"
  unfolding navigate_again_def Let_def by (auto intro!: act_outcome)

lemma setLanguageIndonesian_outcome: "fst (setLanguageIndonesian e s) = Inr ()"
  unfolding setLanguageIndonesian_def by (auto split: sum.splits prod.splits)

lemma search_outcome: "fst (search e kw opts s) = fst (search e kw opts t)"
  unfolding search_def
  by (auto split: option.splits intro!: andThen_outcome act_outcome)

lemma save_if_real_data_outcome:
  "fst (save_if_real_data e a all s) = fst (save_if_real_data e a all t)"
  by (simp add: save_if_real_data_def Let_def split: sum.splits)

lemma login_or_guest_outcome: "fst (login_or_guest e a s) = Inr ()"
  by (simp add: login_or_guest_def split: prod.splits)

lemma attempt_body_outcome:
  "fst (attempt_body e a kw opts s) = fst (attempt_body e a kw opts t)"
  unfolding attempt_body_def
  by (intro andThen_outcome open_page_outcome navigate_again_outcome search_outcome
        save_if_real_data_outcome)
     (simp_all add: login_or_guest_outcome setLanguageIndonesian_outcome)

lemma tryWithAccount_outcome:
  "fst (tryWithAccount e a kw opts s) = fst (tryWithAccount e a kw opts t)"
  using attempt_body_outcome [of e a kw opts "log Launch s" "log Launch t"]
  by (auto simp: tryWithAccount_def act_def split: sum.splits prod.splits)

lemma try_accounts_frame:
  "arrays (snd (try_accounts world kw opts i accs errs s)) = arrays s \<and>
   next_ref (snd (try_accounts world kw opts i accs errs s)) = next_ref s"
proof (induction accs arbitrary: i errs s)
  case Nil
  then show ?case by simp
next
  case (Cons a accs)
  obtain out s1 where t: "tryWithAccount (world i) a kw opts s = (out, s1)"
    by (cases "tryWithAccount (world i) a kw opts s")
  with tryWithAccount_frame(1,2) [of "world i" a kw opts s]
  have f: "arrays s1 = arrays s" "next_ref s1 = next_ref s" by simp_all
  show ?case
  proof (cases out)
    case (Inl m)
    with t f Cons.IH [of "Suc i" "errs @ [(email a, m)]" "call_deleteCookies (cookieFile a) s1"]
    show ?thesis by simp
  next
    case (Inr r)
    with t f show ?thesis by simp
  qed
qed

lemma array_copy_sort:
  "arrays (array_sort (fst (array_copy cfg s)) cmp (snd (array_copy cfg s))) (fst (array_copy cfg s)) =
     sort_by cmp (arrays s cfg)"
  "files (array_sort (fst (array_copy cfg s)) cmp (snd (array_copy cfg s))) = files s"
  "trace (array_sort (fst (array_copy cfg s)) cmp (snd (array_copy cfg s))) = trace s"
  "files (snd (array_copy cfg s)) = files s"
  "arrays (snd (array_copy cfg s)) (fst (array_copy cfg s)) = arrays s cfg"
  "cfg < next_ref s \<Longrightarrow>
     arrays (array_sort (fst (array_copy cfg s)) cmp (snd (array_copy cfg s))) cfg = arrays s cfg"
  by (simp_all add: array_copy_def array_sort_def)

text \<open>
  C10. \<^verbatim>\<open>scrapeKeywords\<close> never changes the configured account list: when \<open>cfg\<close>
  refers to an existing array, that array holds the same accounts in the same order
  after any call, whatever the call returns or throws; the sort works on a new array.
\<close>

theorem config_accounts_unchanged:
  "cfg < next_ref s \<Longrightarrow> arrays (snd (scrapeKeywords cfg world kw opts s)) cfg = arrays s cfg"
proof (cases "PLATFORM_URLS (platform_of opts)")
  case None
  then show ?thesis by (simp add: scrapeKeywords_def)
next
  case (Some u)
  assume c: "cfg < next_ref s"
  obtain accounts s1 where cp: "array_copy cfg s = (accounts, s1)" by (cases "array_copy cfg s")
  then have a1: "arrays s1 cfg = arrays s cfg"
    using c by (auto simp: array_copy_def)
  show ?thesis
  proof (cases "arrays s1 accounts = []")
    case True
    with Some cp a1 show ?thesis by (simp add: scrapeKeywords_def)
  next
    case False
    define s2 where "s2 = array_sort accounts (cookie_first (files s1)) s1"
    have a2: "arrays s2 cfg = arrays s cfg"
      using array_copy_sort(6) [OF c, of "cookie_first (files s1)"] cp by (simp add: s2_def)
    obtain out s3 where t: "try_accounts world kw opts 0 (arrays s2 accounts) [] s2 = (out, s3)"
      by (cases "try_accounts world kw opts 0 (arrays s2 accounts) [] s2")
    with try_accounts_frame [of world kw opts 0 "arrays s2 accounts" "[]" s2]
    have "arrays s3 = arrays s2" by simp
    moreover have "snd (scrapeKeywords cfg world kw opts s) = s3"
      using Some cp False t by (simp add: scrapeKeywords_def s2_def Let_def split: sum.splits)
    ultimately show ?thesis using a2 by simp
  qed
qed


lemma mset_insert_by: "mset (insert_by cmp x xs) = add_mset x (mset xs)"
  by (induction xs) simp_all

lemma mset_sort_by: "mset (sort_by cmp xs) = mset xs"
  unfolding sort_by_def by (induction xs) (simp_all add: mset_insert_by)

lemma length_sort_by: "length (sort_by cmp xs) = length xs"
  using mset_sort_by [of cmp xs] by (metis size_mset)

lemma try_accounts_all_fail:
  assumes "length msgs = length accs"
    and "\<forall>j < length accs. \<forall>t. fst (tryWithAccount (world (i + j)) (accs ! j) kw opts t) = Inl (msgs ! j)"
  shows "fst (try_accounts world kw opts i accs errs s) = Inl (errs @ zip (map email accs) msgs)"
  using assms
proof (induction accs arbitrary: i msgs errs s)
  case Nil
  then show ?case by simp
next
  case (Cons a accs)
  from Cons.prems(1) obtain m ms where msgs: "msgs = m # ms" and len: "length ms = length accs"
    by (cases msgs) auto
  obtain out s1 where t: "tryWithAccount (world i) a kw opts s = (out, s1)"
    by (cases "tryWithAccount (world i) a kw opts s")
  from Cons.prems(2) [rule_format, of 0 s] t msgs have out: "out = Inl m" by simp
  have rest: "\<forall>j < length accs. \<forall>t. fst (tryWithAccount (world (Suc i + j)) (accs ! j) kw opts t) = Inl (ms ! j)"
  proof (intro allI impI)
    fix j t
    assume "j < length accs"
    with Cons.prems(2) [rule_format, of "Suc j" t] msgs
    show "fst (tryWithAccount (world (Suc i + j)) (accs ! j) kw opts t) = Inl (ms ! j)" by simp
  qed
  from Cons.IH [OF len rest, of "errs @ [(email a, m)]" "call_deleteCookies (cookieFile a) s1"]
  show ?case using t out msgs by simp
qed

lemma try_accounts_first_success:
  assumes "\<forall>j < length pre. \<forall>t. isl (fst (tryWithAccount (world (i + j)) (pre ! j) kw opts t))"
    and "\<forall>t. fst (tryWithAccount (world (i + length pre)) a kw opts t) = Inr r"
  shows "fst (try_accounts world kw opts i (pre @ a # post) errs s) = Inr r \<and>
         launches (trace (snd (try_accounts world kw opts i (pre @ a # post) errs s))) =
           launches (trace s) + length pre + 1"
  using assms
proof (induction pre arbitrary: i errs s)
  case Nil
  obtain out s1 where t: "tryWithAccount (world i) a kw opts s = (out, s1)"
    by (cases "tryWithAccount (world i) a kw opts s")
  with Nil.prems(2) [rule_format, of s] have "out = Inr r" by simp
  with t tryWithAccount_launches [of "world i" a kw opts s] show ?case by simp
next
  case (Cons b pre)
  obtain out s1 where t: "tryWithAccount (world i) b kw opts s = (out, s1)"
    by (cases "tryWithAccount (world i) b kw opts s")
  from Cons.prems(1) [rule_format, of 0 s] t obtain m where out: "out = Inl m"
    by (cases out) auto
  have l1: "launches (trace s1) = Suc (launches (trace s))"
    using tryWithAccount_launches [of "world i" b kw opts s] t by simp
  have p1: "\<forall>j < length pre. \<forall>t. isl (fst (tryWithAccount (world (Suc i + j)) (pre ! j) kw opts t))"
  proof (intro allI impI)
    fix j t
    assume "j < length pre"
    with Cons.prems(1) [rule_format, of "Suc j" t]
    show "isl (fst (tryWithAccount (world (Suc i + j)) (pre ! j) kw opts t))" by simp
  qed
  have p2: "\<forall>t. fst (tryWithAccount (world (Suc i + length pre)) a kw opts t) = Inr r"
    using Cons.prems(2) by simp
  from Cons.IH [OF p1 p2, of "errs @ [(email b, m)]" "call_deleteCookies (cookieFile b) s1"]
  show ?case using t out l1 by simp
qed

lemma scrapeKeywords_unfold:
  assumes "PLATFORM_URLS (platform_of opts) = Some u" and "arrays s cfg \<noteq> []"
  shows "scrapeKeywords cfg world kw opts s =
     (case try_accounts world kw opts 0 (sort_by (cookie_first (files s)) (arrays s cfg)) []
             (array_sort (fst (array_copy cfg s)) (cookie_first (files s)) (snd (array_copy cfg s))) of
        (Inr result, s3) \<Rightarrow> (Inr result, s3)
      | (Inl errors, s3) \<Rightarrow>
          (Inl (''Semua akun gagal login. '' @ join '' | '' (map error_entry errors)), s3))"
proof -
  obtain accounts s1 where cp: "array_copy cfg s = (accounts, s1)" by (cases "array_copy cfg s")
  have f1: "files s1 = files s" and a1: "arrays s1 accounts = arrays s cfg"
    using array_copy_sort(4,5) [of cfg s] cp by simp_all
  have o: "arrays (array_sort accounts (cookie_first (files s)) s1) accounts =
           sort_by (cookie_first (files s)) (arrays s cfg)"
    using array_copy_sort(1) [of cfg s "cookie_first (files s)"] cp by simp
  show ?thesis
    using assms cp f1 a1 o by (simp add: scrapeKeywords_def Let_def)
qed

text \<open>
  C7. When the accounts, in the order they are tried (those with a cookie file first),
  are \<open>pre @ a # post\<close>, every attempt with an account of \<open>pre\<close> fails and the
  attempt with \<open>a\<close> succeeds with result \<open>r\<close>, then \<^verbatim>\<open>scrapeKeywords\<close> returns \<open>r\<close>:
  the errors of the earlier accounts are not part of what it returns, and exactly
  \<open>length pre + 1\<close> browsers are launched during the call, so no account of \<open>post\<close> is
  attempted.
\<close>

theorem first_success_returned:
  assumes "PLATFORM_URLS (platform_of opts) = Some u"
    and "sort_by (cookie_first (files s)) (arrays s cfg) = pre @ a # post"
    and "\<forall>j < length pre. \<forall>t. isl (fst (tryWithAccount (world j) (pre ! j) kw opts t))"
    and "\<forall>t. fst (tryWithAccount (world (length pre)) a kw opts t) = Inr r"
  shows "fst (scrapeKeywords cfg world kw opts s) = Inr r \<and>
         launches (trace (snd (scrapeKeywords cfg world kw opts s))) =
           launches (trace s) + length pre + 1"
proof -
  have ne: "arrays s cfg \<noteq> []"
    using assms(2) by (auto simp: sort_by_def)
  define s2 where "s2 = array_sort (fst (array_copy cfg s)) (cookie_first (files s)) (snd (array_copy cfg s))"
  have tr: "trace s2 = trace s"
    by (simp add: s2_def array_copy_sort)
  obtain out s3 where t: "try_accounts world kw opts 0 (pre @ a # post) [] s2 = (out, s3)"
    by (cases "try_accounts world kw opts 0 (pre @ a # post) [] s2")
  from try_accounts_first_success [of pre world 0 kw opts a r post "[]" s2] assms(3,4) t tr
  have "out = Inr r" and "launches (trace s3) = launches (trace s) + length pre + 1"
    by simp_all
  moreover have "scrapeKeywords cfg world kw opts s = (Inr r, s3)"
    using scrapeKeywords_unfold [OF assms(1) ne, of world kw] assms(2) t \<open>out = Inr r\<close>
    by (simp add: s2_def)
  ultimately show ?thesis by simp
qed

text \<open>
  C8. When the platform is valid, the pool is not empty and every attempt fails, attempt
  \<open>j\<close> with message \<open>msgs ! j\<close>, then \<^verbatim>\<open>scrapeKeywords\<close> throws one error whose message
  is \<^verbatim>\<open>Semua akun gagal login.\<close> followed by the entries \<^verbatim>\<open><email>: <message>\<close>
  joined by \<^verbatim>\<open> | \<close>: one entry per configured account (the order tried is a
  permutation of the configured list), each with the email of its account and the
  message of that account's own failure, in the order the accounts were tried.
\<close>

theorem all_failed_aggregate:
  assumes "PLATFORM_URLS (platform_of opts) = Some u"
    and "arrays s cfg \<noteq> []"
    and "order = sort_by (cookie_first (files s)) (arrays s cfg)"
    and "length msgs = length order"
    and "\<forall>j < length order. \<forall>t. fst (tryWithAccount (world j) (order ! j) kw opts t) = Inl (msgs ! j)"
  shows "fst (scrapeKeywords cfg world kw opts s) =
           Inl (''Semua akun gagal login. '' @
                join '' | '' (map error_entry (zip (map email order) msgs))) \<and>
         length (zip (map email order) msgs) = length (arrays s cfg) \<and>
         mset order = mset (arrays s cfg)"
proof -
  define s2 where "s2 = array_sort (fst (array_copy cfg s)) (cookie_first (files s)) (snd (array_copy cfg s))"
  obtain out s3 where t: "try_accounts world kw opts 0 order [] s2 = (out, s3)"
    by (cases "try_accounts world kw opts 0 order [] s2")
  from try_accounts_all_fail [of msgs order world 0 kw opts "[]" s2] assms(4,5) t
  have "out = Inl (zip (map email order) msgs)" by simp
  then have "scrapeKeywords cfg world kw opts s =
      (Inl (''Semua akun gagal login. '' @ join '' | '' (map error_entry (zip (map email order) msgs))), s3)"
    using scrapeKeywords_unfold [OF assms(1,2), of world kw] assms(3) t by (simp add: s2_def)
  moreover have "length (zip (map email order) msgs) = length (arrays s cfg)"
    using assms(3,4) by (simp add: length_sort_by)
  ultimately show ?thesis
    using assms(3) by (simp add: mset_sort_by)
qed


lemmas run_defs = tryWithAccount_def attempt_body_def open_page_def login_or_guest_def
  navigate_again_def lang_select_def setLanguageIndonesian_def search_def stats_of_def
  save_if_real_data_def make_result_def in_volume_range_def contextOptions_def platformUrl_def
  platform_of_def tab_of_def minVolume_of_def maxVolume_of_def PLATFORM_URLS_def TAB_MAP_def
  loginIfNeeded_def already_logged_in_def userMenu_isVisible_def submit_credentials_def
  after_submit_def challenge_signal_def debugPath_def andThen_def act_def log_def call_saveCookies_def
  call_deleteCookies_def catch_or_def truthy_opt_def
  loadCookies_def saveCookies_def deleteCookies_def existsSync_def readFileSync_def JSON_parse_def
  writeFileSync_def unlinkSync_def
  extractKeywords_def table_found.simps extract_rows_def List.map_filter_simps extract_row_def
  blurred_def parse_volume_def cleanVolume_def parseInt_def digits_value_def
  trim_def is_ws_def is_digit_def is_alnum_def toLowerCase_def lower_char_def Let_def

lemma run_accepts_two_rows:
  "fst (tryWithAccount (env_ok login_accepts [row_real, row_blurred]) a ''shoes'' opts_range
         (state0 fs_empty [])) = Inr (result_two_rows (email a))"
  by (simp add: result_two_rows_def scen run_defs)

theorem volume_filter_witness:
  "fst (tryWithAccount (env_ok login_accepts [row_real, row_blurred]) acct1 ''shoes'' opts_range
         (state0 fs_empty [])) = Inr (result_two_rows ''a1@x.io'') \<and>
   filteredCount (result_two_rows ''a1@x.io'') = 1 \<and>
   length (result_keywords (result_two_rows ''a1@x.io'')) = 1"
proof -
  let ?run = "tryWithAccount (env_ok login_accepts [row_real, row_blurred]) acct1 ''shoes'' opts_range
         (state0 fs_empty [])"
  have e: "email acct1 = ''a1@x.io''"
    by (simp add: acct1_def)
  have f: "fst ?run = Inr (result_two_rows ''a1@x.io'')"
    using run_accepts_two_rows [of acct1] unfolding e .
  then have p: "?run = (Inr (result_two_rows ''a1@x.io''), snd ?run)"
    by (metis prod.collapse)
  have l: "length (result_keywords (result_two_rows ''a1@x.io'')) = 1"
    by (simp add: result_two_rows_def)
  from volume_filter [OF p]
  have "filteredCount (result_two_rows ''a1@x.io'') = length (result_keywords (result_two_rows ''a1@x.io''))"
    by (rule conjunct1)
  with l f show ?thesis by simp
qed

lemma env_fails_run: "fst (tryWithAccount (env_fails m) a kw opts t) = Inl m"
  by (simp add: tryWithAccount_def act_def env_fails_def)

lemma order_123:
  "sort_by (cookie_first fs_session1) [acct1, acct2, acct3] = [acct1, acct2, acct3]"
  "sort_by (cookie_first fs_session1) [acct2, acct1, acct3] = [acct1, acct2, acct3]"
  "sort_by (cookie_first fs_session1) [acct2, acct1] = [acct1, acct2]"
  by (simp_all add: sort_by_def cookie_first_def existsSync_def fs_session1_def acct1_def acct2_def
      acct3_def)

theorem first_success_returned_witness:
  "fst (scrapeKeywords 0 world_third_succeeds ''shoes'' opts_range
          (state0 fs_session1 [acct1, acct2, acct3])) =
     fst (tryWithAccount (env_ok login_accepts [row_real, row_blurred]) acct3 ''shoes'' opts_range
          (state0 fs_empty [])) \<and>
   \<not> isl (fst (tryWithAccount (env_ok login_accepts [row_real, row_blurred]) acct3 ''shoes'' opts_range
          (state0 fs_empty []))) \<and>
   launches (trace (snd (scrapeKeywords 0 world_third_succeeds ''shoes'' opts_range
          (state0 fs_session1 [acct1, acct2, acct3])))) = 3"
proof -
  let ?s = "state0 fs_session1 [acct1, acct2, acct3]"
  let ?e = "env_ok login_accepts [row_real, row_blurred]"
  obtain r where r: "fst (tryWithAccount ?e acct3 ''shoes'' opts_range (state0 fs_empty [])) = Inr r"
    using run_accepts_two_rows [of acct3] by blast
  have h1: "PLATFORM_URLS (platform_of opts_range) = Some ''https://keywordtool.io/google''"
    by (simp add: PLATFORM_URLS_def platform_of_def opts_range_def)
  have h2: "sort_by (cookie_first (files ?s)) (arrays ?s 0) = [acct1, acct2] @ acct3 # []"
    by (simp add: state0_def order_123)
  have h3: "\<forall>j < length [acct1, acct2]. \<forall>t.
      isl (fst (tryWithAccount (world_third_succeeds j) ([acct1, acct2] ! j) ''shoes'' opts_range t))"
    by (simp add: world_third_succeeds_def env_fails_run)
  have h4: "\<forall>t. fst (tryWithAccount (world_third_succeeds (length [acct1, acct2])) acct3 ''shoes''
      opts_range t) = Inr r"
    using r tryWithAccount_outcome [of ?e acct3 "''shoes''" opts_range _ "state0 fs_empty []"]
    by (simp add: world_third_succeeds_def)
  from first_success_returned [OF h1 h2 h3 h4] r show ?thesis
    by (simp add: state0_def)
qed

theorem all_failed_aggregate_witness:
  "fst (scrapeKeywords 0 world_all_fail ''shoes'' opts0 (state0 fs_session1 [acct2, acct1, acct3])) =
     Inl ''Semua akun gagal login. a1@x.io: timeout | a2@x.io: crash | a3@x.io: blocked''"
proof -
  let ?s = "state0 fs_session1 [acct2, acct1, acct3]"
  have h1: "PLATFORM_URLS (platform_of opts0) = Some ''https://keywordtool.io/google''"
    by (simp add: PLATFORM_URLS_def platform_of_def opts0_def)
  have h2: "arrays ?s 0 \<noteq> []"
    by (simp add: state0_def)
  have h3: "[acct1, acct2, acct3] = sort_by (cookie_first (files ?s)) (arrays ?s 0)"
    by (simp add: state0_def order_123)
  have h4: "length [''timeout'', ''crash'', ''blocked''] = length [acct1, acct2, acct3]"
    by simp
  have h5: "\<forall>j < length [acct1, acct2, acct3]. \<forall>t.
      fst (tryWithAccount (world_all_fail j) ([acct1, acct2, acct3] ! j) ''shoes'' opts0 t) =
      Inl ([''timeout'', ''crash'', ''blocked''] ! j)"
  proof (intro allI impI)
    fix j t
    assume "j < length [acct1, acct2, acct3]"
    then have "j = 0 \<or> j = 1 \<or> j = 2" by auto
    then show "fst (tryWithAccount (world_all_fail j) ([acct1, acct2, acct3] ! j) ''shoes'' opts0 t) =
      Inl ([''timeout'', ''crash'', ''blocked''] ! j)"
      by (auto simp: world_all_fail_def env_fails_run)
  qed
  from all_failed_aggregate [OF h1 h2 h3 h4 h5] show ?thesis
    by (simp add: error_entry_def acct1_def acct2_def acct3_def)
qed

theorem config_accounts_unchanged_witness:
  "0 < next_ref (state0 fs_session1 [acct2, acct1]) \<and>
   sort_by (cookie_first fs_session1) [acct2, acct1] = [acct1, acct2] \<and>
   arrays (snd (scrapeKeywords 0 world_all_fail ''shoes'' opts0 (state0 fs_session1 [acct2, acct1]))) 0 =
     [acct2, acct1]"
proof -
  have h: "0 < next_ref (state0 fs_session1 [acct2, acct1])"
    by (simp add: state0_def)
  from config_accounts_unchanged [OF h, of world_all_fail "''shoes''" opts0] h order_123(3)
  show ?thesis by (simp add: state0_def)
qed

section \<open>Saving and deleting the session\<close>

lemma save_calls_simps [simp]:
  "save_calls [] = []" "save_calls (xs @ ys) = save_calls xs @ save_calls ys"
  "save_calls (ev # xs) = (if is_save ev then [ev] else []) @ save_calls xs"
  by (simp_all add: save_calls_def)

lemma save_calls_page: "list_all is_page_call evs \<Longrightarrow> save_calls evs = []"
  by (induction evs) (auto elim: is_page_call.elims)

lemma quiet_no_saves:
  assumes "quiet s s'"
  shows "files s' = files s" and "save_calls (trace s') = save_calls (trace s)"
  using assms by (auto simp: quiet_def save_calls_page)

lemma ends_with_save_quiet: "quiet s s' \<Longrightarrow> ends_with_save e a s s'"
  by (auto simp: ends_with_save_def)

lemma ends_with_save_after_quiet:
  "quiet s s1 \<Longrightarrow> ends_with_save e a s1 s' \<Longrightarrow> ends_with_save e a s s'"
  unfolding ends_with_save_def by (blast intro: quiet_trans)

lemma ends_with_save_andThen:
  assumes "\<And>s. quiet s (snd (m s))" and "\<And>v s1. ends_with_save e a s1 (snd (k v s1))"
  shows "ends_with_save e a s (snd (andThen m k s))"
proof (cases "m s")
  case (Pair r s1)
  have q1: "quiet s s1" using assms(1) [of s] Pair by simp
  show ?thesis
  proof (cases r)
    case (Inl x)
    with Pair q1 show ?thesis by (simp add: andThen_def ends_with_save_quiet)
  next
    case (Inr v)
    with Pair have "andThen m k s = k v s1" by (simp add: andThen_def)
    with q1 assms(2) [of s1 v] show ?thesis by (auto intro: ends_with_save_after_quiet)
  qed
qed

lemma save_if_real_data_ends:
  assumes "extractKeywords (table_counts e) (table_rows e) = Inr all"
  shows "ends_with_save e a s (snd (save_if_real_data e a all s))"
proof (cases "list_ex isDataAvailable all \<and> (\<exists>c u. cookies_at_end e = Inr c \<and> userAgent_at_end e = Inr u)")
  case True
  then obtain c u where cu: "cookies_at_end e = Inr c" "userAgent_at_end e = Inr u" by blast
  from True have ex: "\<exists>k \<in> set all. isDataAvailable k" by (simp add: list_ex_iff)
  then have "all \<noteq> []" by auto
  with True cu have "snd (save_if_real_data e a all s) = call_saveCookies (cookieFile a) c u s"
    by (simp add: save_if_real_data_def Let_def)
  with assms ex cu show ?thesis
    unfolding ends_with_save_def by (intro exI [of _ s]) auto
next
  case False
  then have "snd (save_if_real_data e a all s) = s"
    by (auto simp: save_if_real_data_def Let_def split: sum.splits)
  then show ?thesis by (simp add: ends_with_save_quiet)
qed

lemma extract_and_save_ends:
  "ends_with_save e a s
     (snd (andThen (\<lambda>s. (extractKeywords (table_counts e) (table_rows e), s))
             (\<lambda>allKeywords. andThen (save_if_real_data e a allKeywords)
                (\<lambda>_ s. (Inr (make_result e a opts allKeywords), s))) s))"
proof (cases "extractKeywords (table_counts e) (table_rows e)")
  case (Inl m)
  then show ?thesis by (simp add: andThen_def ends_with_save_quiet)
next
  case (Inr all)
  have "snd (andThen (save_if_real_data e a all) (\<lambda>_ s. (Inr (make_result e a opts all), s)) s) =
        snd (save_if_real_data e a all s)"
    by (simp add: andThen_def split: prod.splits sum.splits)
  with save_if_real_data_ends [OF Inr, of a s] Inr show ?thesis
    by (simp add: andThen_def)
qed

lemma attempt_tail_ends: "ends_with_save e a s (snd (attempt_tail e a kw opts s))"
  unfolding attempt_tail_def
  by (intro ends_with_save_andThen navigate_again_quiet setLanguageIndonesian_quiet search_quiet
        extract_and_save_ends)

lemma attempt_body_steps:
  "\<exists>s1. quiet s s1 \<and>
     (snd (attempt_body e a kw opts s) = s1 \<or>
      ends_with_save e a (snd (loginIfNeeded (login e) a s1)) (snd (attempt_body e a kw opts s)))"
proof -
  obtain r1 s1 where o: "open_page e a opts s = (r1, s1)" by (cases "open_page e a opts s")
  with open_page_quiet [of s e a opts] have q: "quiet s s1" by simp
  show ?thesis
  proof (cases r1)
    case (Inl m)
    with o have "snd (attempt_body e a kw opts s) = s1"
      by (simp add: attempt_body_def andThen_def)
    with q show ?thesis by blast
  next
    case (Inr u)
    obtain lr s2 where l: "loginIfNeeded (login e) a s1 = (lr, s2)"
      by (cases "loginIfNeeded (login e) a s1")
    have "attempt_body e a kw opts s = attempt_tail e a kw opts s2"
      using o Inr l by (simp add: attempt_body_def attempt_tail_def andThen_def login_or_guest_def)
    with attempt_tail_ends [of e a s2 kw opts] l q show ?thesis by auto
  qed
qed


lemma ends_with_save_saves:
  assumes "ends_with_save e a s s'"
  shows "\<exists>E. save_calls (trace s') = save_calls (trace s) @ E \<and>
           (E = [] \<longrightarrow> files s' = files s) \<and>
           (E = [] \<or>
            (\<exists>all c u. E = [SaveCookies (cookieFile a) c u] \<and>
               extractKeywords (table_counts e) (table_rows e) = Inr all \<and>
               (\<exists>k \<in> set all. isDataAvailable k) \<and>
               cookies_at_end e = Inr c \<and> userAgent_at_end e = Inr u))"
proof -
  from assms obtain s3 where q: "quiet s s3"
    and d: "s' = s3 \<or>
         (\<exists>all c u. extractKeywords (table_counts e) (table_rows e) = Inr all \<and>
            (\<exists>k \<in> set all. isDataAvailable k) \<and>
            cookies_at_end e = Inr c \<and> userAgent_at_end e = Inr u \<and>
            s' = call_saveCookies (cookieFile a) c u s3)"
    unfolding ends_with_save_def by blast
  from d show ?thesis
  proof
    assume "s' = s3"
    with quiet_no_saves [OF q] show ?thesis by simp
  next
    assume "\<exists>all c u. extractKeywords (table_counts e) (table_rows e) = Inr all \<and>
            (\<exists>k \<in> set all. isDataAvailable k) \<and>
            cookies_at_end e = Inr c \<and> userAgent_at_end e = Inr u \<and>
            s' = call_saveCookies (cookieFile a) c u s3"
    then obtain all c u where x: "extractKeywords (table_counts e) (table_rows e) = Inr all"
      "\<exists>k \<in> set all. isDataAvailable k" "cookies_at_end e = Inr c" "userAgent_at_end e = Inr u"
      and s': "s' = call_saveCookies (cookieFile a) c u s3" by blast
    have "save_calls (trace s') = save_calls (trace s) @ [SaveCookies (cookieFile a) c u]"
      using quiet_no_saves(2) [OF q] s' by simp
    with x show ?thesis by blast
  qed
qed

lemma login_saves:
  "\<exists>L. save_calls (trace (snd (loginIfNeeded e a s))) = save_calls (trace s) @ L \<and>
        (L = [] \<longrightarrow> files (snd (loginIfNeeded e a s)) = files s) \<and>
        (L = [] \<or>
         (\<exists>c u. L = [SaveCookies (cookieFile a) c u] \<and>
            cookies_after_login e = Inr c \<and> userAgent_after_login e = Inr u \<and>
            \<not> already_logged_in e \<and> fst (loginIfNeeded e a s) = Inr True))"
proof -
  obtain r s' where l: "loginIfNeeded e a s = (r, s')" by (cases "loginIfNeeded e a s")
  from loginIfNeeded_cases [OF l] show ?thesis
  proof
    assume "quiet s s' \<and> (already_logged_in e \<or> (\<exists>m. r = Inl m))"
    then have "quiet s s'" by simp
    from quiet_no_saves [OF this] l show ?thesis by simp
  next
    assume "\<not> already_logged_in e \<and> r = Inr True \<and>
          (\<exists>c u s1. cookies_after_login e = Inr c \<and> userAgent_after_login e = Inr u \<and>
             quiet s s1 \<and> s' = call_saveCookies (cookieFile a) c u s1)"
    then obtain c u s1 where n: "\<not> already_logged_in e" "r = Inr True"
      "cookies_after_login e = Inr c" "userAgent_after_login e = Inr u"
      and q: "quiet s s1" and s': "s' = call_saveCookies (cookieFile a) c u s1" by blast
    have "save_calls (trace s') = save_calls (trace s) @ [SaveCookies (cookieFile a) c u]"
      using quiet_no_saves(2) [OF q] s' by simp
    with n l show ?thesis by auto
  qed
qed

lemma attempt_body_saves:
  "\<exists>L E. save_calls (trace (snd (attempt_body e a kw opts s))) = save_calls (trace s) @ L @ E \<and>
      (L = [] \<and> E = [] \<longrightarrow> files (snd (attempt_body e a kw opts s)) = files s) \<and>
      (L = [] \<or>
       (\<exists>c u. L = [SaveCookies (cookieFile a) c u] \<and>
          cookies_after_login (login e) = Inr c \<and> userAgent_after_login (login e) = Inr u \<and>
          \<not> already_logged_in (login e) \<and> fst (loginIfNeeded (login e) a s) = Inr True)) \<and>
      (E = [] \<or>
       (\<exists>all c u. E = [SaveCookies (cookieFile a) c u] \<and>
          extractKeywords (table_counts e) (table_rows e) = Inr all \<and>
          (\<exists>k \<in> set all. isDataAvailable k) \<and>
          cookies_at_end e = Inr c \<and> userAgent_at_end e = Inr u))"
proof -
  let ?sb = "snd (attempt_body e a kw opts s)"
  from attempt_body_steps [of s e a kw opts] obtain s1 where q: "quiet s s1"
    and d: "?sb = s1 \<or> ends_with_save e a (snd (loginIfNeeded (login e) a s1)) ?sb" by blast
  from d show ?thesis
  proof
    assume "?sb = s1"
    with quiet_no_saves [OF q] have "save_calls (trace ?sb) = save_calls (trace s) @ [] @ []"
      and "files ?sb = files s" by simp_all
    then show ?thesis by blast
  next
    assume w: "ends_with_save e a (snd (loginIfNeeded (login e) a s1)) ?sb"
    let ?s2 = "snd (loginIfNeeded (login e) a s1)"
    from login_saves [of "login e" a s1] obtain L
      where L1: "save_calls (trace ?s2) = save_calls (trace s1) @ L"
        and L2: "L = [] \<longrightarrow> files ?s2 = files s1"
        and L3: "L = [] \<or>
         (\<exists>c u. L = [SaveCookies (cookieFile a) c u] \<and>
            cookies_after_login (login e) = Inr c \<and> userAgent_after_login (login e) = Inr u \<and>
            \<not> already_logged_in (login e) \<and> fst (loginIfNeeded (login e) a s1) = Inr True)"
      by blast
    from ends_with_save_saves [OF w] obtain E
      where E1: "save_calls (trace ?sb) = save_calls (trace ?s2) @ E"
        and E2: "E = [] \<longrightarrow> files ?sb = files ?s2"
        and E3: "E = [] \<or>
            (\<exists>all c u. E = [SaveCookies (cookieFile a) c u] \<and>
               extractKeywords (table_counts e) (table_rows e) = Inr all \<and>
               (\<exists>k \<in> set all. isDataAvailable k) \<and>
               cookies_at_end e = Inr c \<and> userAgent_at_end e = Inr u)"
      by blast
    have i: "fst (loginIfNeeded (login e) a s1) = fst (loginIfNeeded (login e) a s)"
      by (rule loginIfNeeded_outcome)
    have "save_calls (trace ?sb) = save_calls (trace s) @ L @ E"
      using L1 E1 quiet_no_saves(2) [OF q] by simp
    moreover have "L = [] \<and> E = [] \<longrightarrow> files ?sb = files s"
      using L2 E2 quiet_no_saves(1) [OF q] by simp
    ultimately show ?thesis using L3 E3 unfolding i by blast
  qed
qed

text \<open>
  C2, as the code has it. The calls of \<^verbatim>\<open>saveCookies\<close> during one attempt are at most
  two, in this order: one by \<^verbatim>\<open>loginIfNeeded\<close>, right after a credential submission
  it accepts (with the cookies read there, before any extraction), and one after the
  extraction, made only when some extracted row has \<^verbatim>\<open>isDataAvailable == true\<close>. So
  when every extracted row has \<^verbatim>\<open>isDataAvailable == false\<close> the save after the
  extraction is not made, and when in addition the login found the session valid or
  failed, no save is made and the files are untouched, whatever the attempt returns.
\<close>

theorem saves_of_an_attempt:
  "\<exists>L E. save_calls (trace (snd (tryWithAccount e a kw opts s))) = save_calls (trace s) @ L @ E \<and>
      (L = [] \<and> E = [] \<longrightarrow> files (snd (tryWithAccount e a kw opts s)) = files s) \<and>
      (L = [] \<or>
       (\<exists>c u. L = [SaveCookies (cookieFile a) c u] \<and>
          cookies_after_login (login e) = Inr c \<and> userAgent_after_login (login e) = Inr u \<and>
          \<not> already_logged_in (login e) \<and> fst (loginIfNeeded (login e) a s) = Inr True)) \<and>
      (E = [] \<or>
       (\<exists>all c u. E = [SaveCookies (cookieFile a) c u] \<and>
          extractKeywords (table_counts e) (table_rows e) = Inr all \<and>
          (\<exists>k \<in> set all. isDataAvailable k) \<and>
          cookies_at_end e = Inr c \<and> userAgent_at_end e = Inr u)) \<and>
      ((\<forall>all. extractKeywords (table_counts e) (table_rows e) = Inr all \<longrightarrow>
          (\<forall>k \<in> set all. \<not> isDataAvailable k)) \<longrightarrow> E = []) \<and>
      (already_logged_in (login e) \<or> isl (fst (loginIfNeeded (login e) a s)) \<longrightarrow> L = [])"
proof (cases "launch e")
  case (Inl m)
  then have "snd (tryWithAccount e a kw opts s) = log Launch s"
    by (simp add: tryWithAccount_def act_def)
  then have "save_calls (trace (snd (tryWithAccount e a kw opts s))) = save_calls (trace s) @ [] @ []"
    and "files (snd (tryWithAccount e a kw opts s)) = files s" by simp_all
  then show ?thesis by blast
next
  case (Inr v)
  let ?s0 = "log Launch s"
  let ?sb = "snd (attempt_body e a kw opts ?s0)"
  have fin: "snd (tryWithAccount e a kw opts s) = log Close ?sb"
    using Inr by (simp add: tryWithAccount_def act_def split: sum.splits prod.splits)
  have i: "fst (loginIfNeeded (login e) a ?s0) = fst (loginIfNeeded (login e) a s)"
    by (rule loginIfNeeded_outcome)
  from attempt_body_saves [of e a kw opts ?s0] obtain L E
    where 1: "save_calls (trace ?sb) = save_calls (trace ?s0) @ L @ E"
      and 2: "L = [] \<and> E = [] \<longrightarrow> files ?sb = files ?s0"
      and 3: "L = [] \<or>
       (\<exists>c u. L = [SaveCookies (cookieFile a) c u] \<and>
          cookies_after_login (login e) = Inr c \<and> userAgent_after_login (login e) = Inr u \<and>
          \<not> already_logged_in (login e) \<and> fst (loginIfNeeded (login e) a s) = Inr True)"
      and 4: "E = [] \<or>
       (\<exists>all c u. E = [SaveCookies (cookieFile a) c u] \<and>
          extractKeywords (table_counts e) (table_rows e) = Inr all \<and>
          (\<exists>k \<in> set all. isDataAvailable k) \<and>
          cookies_at_end e = Inr c \<and> userAgent_at_end e = Inr u)"
    unfolding i by blast
  have a: "save_calls (trace (snd (tryWithAccount e a kw opts s))) = save_calls (trace s) @ L @ E"
    using 1 fin by simp
  have b: "L = [] \<and> E = [] \<longrightarrow> files (snd (tryWithAccount e a kw opts s)) = files s"
    using 2 fin by simp
  have c: "(\<forall>all. extractKeywords (table_counts e) (table_rows e) = Inr all \<longrightarrow>
          (\<forall>k \<in> set all. \<not> isDataAvailable k)) \<longrightarrow> E = []"
    using 4 by blast
  have d: "already_logged_in (login e) \<or> isl (fst (loginIfNeeded (login e) a s)) \<longrightarrow> L = []"
    using 3 by auto
  from a b 3 4 c d show ?thesis by blast
qed


lemma extract_blurred [simp]: "extract_rows [row_blurred] = [record_blurred]"
  by (simp add: extract_rows_def List.map_filter_simps extract_row_def row_blurred_def cell_of_def
      record_blurred_def blurred_def parse_volume_def trim_def is_ws_def Let_def)

lemma extractKeywords_blurred:
  "extractKeywords (table_counts (env_ok l [row_blurred])) (table_rows (env_ok l [row_blurred])) =
     Inr [record_blurred]"
  by (simp add: extractKeywords_def env_ok_def table_found.simps catch_or_def)

text \<open>
  C2 as stated fails: with a login that is accepted and a table whose only row is
  blurred, the attempt succeeds and \<^verbatim>\<open>saveCookies\<close> has been called once, by
  \<^verbatim>\<open>loginIfNeeded\<close>.
\<close>

theorem blurred_attempt_saves_after_login:
  "extractKeywords (table_counts env_blurred_after_login) (table_rows env_blurred_after_login) =
     Inr [record_blurred] \<and>
   \<not> isDataAvailable record_blurred \<and>
   \<not> isl (fst (tryWithAccount env_blurred_after_login acct1 ''shoes'' opts0 (state0 fs_empty [acct1]))) \<and>
   save_calls (trace (snd (tryWithAccount env_blurred_after_login acct1 ''shoes'' opts0
      (state0 fs_empty [acct1])))) =
     [SaveCookies ''.kt-cookies-1.json'' (JArr [JStr ''sid=2'']) ''UA-live''] \<and>
   trace (state0 fs_empty [acct1]) = []"
proof -
  have "extractKeywords (table_counts env_blurred_after_login) (table_rows env_blurred_after_login) =
     Inr [record_blurred]"
    unfolding env_blurred_after_login_def by (rule extractKeywords_blurred)
  moreover have "\<not> isDataAvailable record_blurred"
    by (simp add: record_blurred_def)
  moreover have "\<not> isl (fst (tryWithAccount env_blurred_after_login acct1 ''shoes'' opts0
      (state0 fs_empty [acct1])))"
    by (simp add: env_blurred_after_login_def scen run_defs)
  moreover have "save_calls (trace (snd (tryWithAccount env_blurred_after_login acct1 ''shoes'' opts0
      (state0 fs_empty [acct1])))) =
     [SaveCookies ''.kt-cookies-1.json'' (JArr [JStr ''sid=2'']) ''UA-live'']"
    by (simp add: env_blurred_after_login_def scen run_defs save_calls_def)
  moreover have "trace (state0 fs_empty [acct1]) = []"
    by (simp add: state0_def)
  ultimately show ?thesis by blast
qed

theorem saves_of_an_attempt_witness:
  "isl (fst (loginIfNeeded (login env_rejected_guest) acct1 (state0 fs_session1 [acct1]))) \<and>
   extractKeywords (table_counts env_rejected_guest) (table_rows env_rejected_guest) =
     Inr [record_blurred] \<and>
   save_calls (trace (snd (tryWithAccount env_rejected_guest acct1 ''shoes'' opts0
      (state0 fs_session1 [acct1])))) = save_calls (trace (state0 fs_session1 [acct1])) \<and>
   files (snd (tryWithAccount env_rejected_guest acct1 ''shoes'' opts0 (state0 fs_session1 [acct1]))) =
     files (state0 fs_session1 [acct1])"
proof -
  let ?s = "state0 fs_session1 [acct1]"
  have l: "isl (fst (loginIfNeeded (login env_rejected_guest) acct1 ?s))"
    by (simp add: env_rejected_guest_def env_ok_def login_rejects_def login_accepts_def acct1_def
        state0_def loginIfNeeded_def already_logged_in_def userMenu_isVisible_def
        submit_credentials_def after_submit_def
        challenge_signal_def andThen_def act_def catch_or_def toLowerCase_def lower_char_def Let_def)
  have x: "extractKeywords (table_counts env_rejected_guest) (table_rows env_rejected_guest) =
     Inr [record_blurred]"
    unfolding env_rejected_guest_def by (rule extractKeywords_blurred)
  have n: "\<forall>all. extractKeywords (table_counts env_rejected_guest) (table_rows env_rejected_guest) =
      Inr all \<longrightarrow> (\<forall>k \<in> set all. \<not> isDataAvailable k)"
    by (simp add: x record_blurred_def)
  from saves_of_an_attempt [of env_rejected_guest acct1 "''shoes''" opts0 ?s] l n
  have "save_calls (trace (snd (tryWithAccount env_rejected_guest acct1 ''shoes'' opts0 ?s))) =
          save_calls (trace ?s) \<and>
        files (snd (tryWithAccount env_rejected_guest acct1 ''shoes'' opts0 ?s)) = files ?s"
    by (metis append_Nil2)
  with l x show ?thesis by blast
qed

text \<open>
  C1, as the code has it. When the attempt with an account fails, with whatever error,
  the loop calls \<^verbatim>\<open>deleteCookies\<close> on the account's cookie file before it goes on
  with the next account, and the file is gone when the unlink does not throw. When the
  attempt succeeds (also after a login that was rejected or challenged and the attempt
  went on as guest), the loop returns at once: no \<^verbatim>\<open>deleteCookies\<close> is called and a
  cookie file that existed still exists.
\<close>

theorem failed_attempt_deletes_cookies:
  "(tryWithAccount (world i) a kw opts s = (Inl m, s1) \<longrightarrow>
      try_accounts world kw opts i (a # rest) errors s =
        try_accounts world kw opts (Suc i) rest (errors @ [(email a, m)])
          (call_deleteCookies (cookieFile a) s1) \<and>
      last (trace (call_deleteCookies (cookieFile a) s1)) = DeleteCookies (cookieFile a) \<and>
      ((\<exists>f'. unlinkSync (files s1) (cookieFile a) = Inr f') \<longrightarrow>
         \<not> existsSync (files (call_deleteCookies (cookieFile a) s1)) (cookieFile a)))
   \<and> (tryWithAccount (world i) a kw opts s = (Inr r, s1) \<longrightarrow>
      try_accounts world kw opts i (a # rest) errors s = (Inr r, s1) \<and>
      (existsSync (files s) (cookieFile a) \<longrightarrow> existsSync (files s1) (cookieFile a)) \<and>
      (\<forall>p. DeleteCookies p \<notin> set (new_calls s s1)))"
proof (intro conjI impI allI)
  assume t: "tryWithAccount (world i) a kw opts s = (Inl m, s1)"
  then show "try_accounts world kw opts i (a # rest) errors s =
        try_accounts world kw opts (Suc i) rest (errors @ [(email a, m)])
          (call_deleteCookies (cookieFile a) s1)"
    by simp
  show "last (trace (call_deleteCookies (cookieFile a) s1)) = DeleteCookies (cookieFile a)"
    by simp
next
  assume "\<exists>f'. unlinkSync (files s1) (cookieFile a) = Inr f'"
  then obtain f' where u: "unlinkSync (files s1) (cookieFile a) = Inr f'" by blast
  then have "existsSync (files s1) (cookieFile a)"
    by (auto simp: unlinkSync_def existsSync_def split: if_splits option.splits)
  with u unlinkSync_Inr [OF u]
  show "\<not> existsSync (files (call_deleteCookies (cookieFile a) s1)) (cookieFile a)"
    by (simp add: deleteCookies_def existsSync_def)
next
  assume t: "tryWithAccount (world i) a kw opts s = (Inr r, s1)"
  then show "try_accounts world kw opts i (a # rest) errors s = (Inr r, s1)"
    by simp
  from t have s1: "s1 = snd (tryWithAccount (world i) a kw opts s)" by simp
  {
    assume "existsSync (files s) (cookieFile a)"
    then show "existsSync (files s1) (cookieFile a)"
      unfolding s1 existsSync_def by (rule tryWithAccount_frame(4))
  }
  fix p
  from tryWithAccount_trace [of "world i" a kw opts s] obtain evs
    where "trace s1 = trace s @ Launch # evs" and "\<forall>p. DeleteCookies p \<notin> set evs"
    unfolding s1 by blast
  then show "DeleteCookies p \<notin> set (new_calls s s1)"
    by (simp add: new_calls_def)
qed

text \<open>
  C1 as stated fails: account 1 has a cookie file, its login is rejected, the attempt
  goes on as guest and succeeds with a blurred row; \<^verbatim>\<open>scrapeKeywords\<close> returns the
  result, \<^verbatim>\<open>deleteCookies\<close> is never called and the cookie file is still there.
\<close>

theorem rejected_login_keeps_cookies:
  "fst (loginIfNeeded (login env_rejected_guest) acct1 (state0 fs_session1 [acct1])) =
     Inl ''Login gagal untuk a1@x.io: Wrong password'' \<and>
   \<not> isl (fst (scrapeKeywords 0 world_rejected_guest ''shoes'' opts0 (state0 fs_session1 [acct1]))) \<and>
   entries (files (snd (scrapeKeywords 0 world_rejected_guest ''shoes'' opts0
      (state0 fs_session1 [acct1])))) ''.kt-cookies-1.json'' = Some (JsonFile session1) \<and>
   DeleteCookies ''.kt-cookies-1.json'' \<notin>
     set (trace (snd (scrapeKeywords 0 world_rejected_guest ''shoes'' opts0
      (state0 fs_session1 [acct1]))))"
proof -
  have 1: "fst (loginIfNeeded (login env_rejected_guest) acct1 (state0 fs_session1 [acct1])) =
     Inl ''Login gagal untuk a1@x.io: Wrong password''"
    by (simp add: env_rejected_guest_def scen run_defs)
  have 2: "\<not> isl (fst (scrapeKeywords 0 world_rejected_guest ''shoes'' opts0
      (state0 fs_session1 [acct1])))"
    by (simp add: scrapeKeywords_def array_copy_def array_sort_def sort_by_def cookie_first_def
        world_rejected_guest_def env_rejected_guest_def scen run_defs)
  have 3: "entries (files (snd (scrapeKeywords 0 world_rejected_guest ''shoes'' opts0
      (state0 fs_session1 [acct1])))) ''.kt-cookies-1.json'' = Some (JsonFile session1)"
    by (simp add: scrapeKeywords_def array_copy_def array_sort_def sort_by_def cookie_first_def
        world_rejected_guest_def env_rejected_guest_def scen run_defs)
  have 4: "DeleteCookies ''.kt-cookies-1.json'' \<notin>
     set (trace (snd (scrapeKeywords 0 world_rejected_guest ''shoes'' opts0
      (state0 fs_session1 [acct1]))))"
    by (simp add: scrapeKeywords_def array_copy_def array_sort_def sort_by_def cookie_first_def
        world_rejected_guest_def env_rejected_guest_def scen run_defs)
  from 1 2 3 4 show ?thesis by blast
qed

theorem failed_attempt_deletes_cookies_witness:
  "fst (tryWithAccount (world_all_fail 0) acct1 ''shoes'' opts0 (state0 fs_session1 [acct1])) =
     Inl ''timeout'' \<and>
   existsSync (files (snd (tryWithAccount (world_all_fail 0) acct1 ''shoes'' opts0
      (state0 fs_session1 [acct1])))) (cookieFile acct1) \<and>
   \<not> existsSync (files (call_deleteCookies (cookieFile acct1)
      (snd (tryWithAccount (world_all_fail 0) acct1 ''shoes'' opts0 (state0 fs_session1 [acct1])))))
      (cookieFile acct1) \<and>
   \<not> isl (fst (tryWithAccount (world_rejected_guest 0) acct1 ''shoes'' opts0
      (state0 fs_session1 [acct1]))) \<and>
   existsSync (files (state0 fs_session1 [acct1])) (cookieFile acct1) \<and>
   existsSync (files (snd (tryWithAccount (world_rejected_guest 0) acct1 ''shoes'' opts0
      (state0 fs_session1 [acct1])))) (cookieFile acct1)"
proof -
  let ?s = "state0 fs_session1 [acct1]"
  let ?f = "tryWithAccount (world_all_fail 0) acct1 ''shoes'' opts0 ?s"
  let ?g = "tryWithAccount (world_rejected_guest 0) acct1 ''shoes'' opts0 ?s"
  have f1: "fst ?f = Inl ''timeout''"
    by (simp add: world_all_fail_def env_fails_run)
  then have f2: "?f = (Inl ''timeout'', snd ?f)"
    by (metis prod.collapse)
  have f3: "snd ?f = log Launch ?s"
    by (simp add: world_all_fail_def env_fails_def tryWithAccount_def act_def)
  have e: "existsSync (files ?s) (cookieFile acct1)"
    by (simp add: state0_def fs_session1_def acct1_def existsSync_def)
  have u: "\<exists>f'. unlinkSync (files (snd ?f)) (cookieFile acct1) = Inr f'"
    unfolding f3 by (simp add: state0_def fs_session1_def acct1_def unlinkSync_def)
  have g1: "\<not> isl (fst ?g)"
    by (simp add: world_rejected_guest_def env_rejected_guest_def scen run_defs)
  then obtain r where g2: "?g = (Inr r, snd ?g)"
    by (metis prod.collapse isl_def sum.collapse(2))
  from failed_attempt_deletes_cookies [of world_all_fail 0 acct1 "''shoes''" opts0 ?s "''timeout''"
      "snd ?f" "[]" "[]"] f2 u
  have d: "\<not> existsSync (files (call_deleteCookies (cookieFile acct1) (snd ?f))) (cookieFile acct1)"
    by blast
  from failed_attempt_deletes_cookies [of world_rejected_guest 0 acct1 "''shoes''" opts0 ?s _
      "snd ?g" "[]" "[]" r] g2 e
  have k: "existsSync (files (snd ?g)) (cookieFile acct1)"
    by blast
  from f1 e f3 d g1 k show ?thesis by simp
qed

end
